theory Spec2Isabelle
  imports Complex_Main "HOL-Library.Log_Nat" "HOL-Library.Multiset" "HOL-Library.Sublist"
begin

section \<open>Common data\<close>

text \<open>
  The pipeline passes contacts around as Python dicts.  Every contact that enters the
  pipeline is built by \<^verbatim>\<open>fetch_all_contacts_from_list\<close> (apollo.py), by one dict literal
  with the eight keys below, so a contact is a record with these fields.  The key
  \<^verbatim>\<open>'email'\<close> is always present; \<^verbatim>\<open>'id'\<close> is \<^verbatim>\<open>contact.get('id')\<close> and may be
  \<^verbatim>\<open>None\<close>.  Strings are lists of characters; a character is a code point below 256.
\<close>

record contact =
  contact_id :: "string option"
  first_name :: string
  last_name :: string
  email :: string
  company :: string
  linkedin :: string
  annual_revenue :: string
  company_headcount :: string

text \<open>Every \<^verbatim>\<open>raise\<close> of the modelled functions is a value of this type.\<close>

datatype cause =
  No_task_id
  | Not_completed
  | KeyError string

datatype error =
  Percentage_out_of_range
  | Missing_credentials
  | Placeholder_list_id
  | Invalid_int_literal
  | Range_step_zero
  | Http_error_on_page nat nat
  | Unexpected_error_on_page nat
  | Reoon_request_failed
  | Verification_failed cause
  | ZeroDivisionError
  | HTTPError nat
  | ConnectionError
  | JSONDecodeError
  | Sheet_manager_init_failed

text \<open>
  Truthiness of the value of \<^verbatim>\<open>os.getenv\<close> or of \<^verbatim>\<open>dict.get\<close> on a string field:
  \<^verbatim>\<open>None\<close> and the empty string are falsy.
\<close>

fun truthy :: "string option \<Rightarrow> bool" where
  "truthy None = False"
| "truthy (Some s) = (s \<noteq> [])"

section \<open>utils.py: split_contacts\<close>

subsection \<open>Binary64 arithmetic\<close>

text \<open>
  \<^verbatim>\<open>split_index = int(len(contacts) * (primary_percent / 100))\<close> is computed in
  IEEE 754 binary64: \<^verbatim>\<open>primary_percent / 100\<close> is the correctly rounded quotient of two
  ints, the product converts \<^verbatim>\<open>len(contacts)\<close> to a float and rounds the exact product,
  and \<^verbatim>\<open>int\<close> truncates towards zero.  A float is modelled by the rational it denotes;
  \<open>float_round\<close> rounds a rational to the nearest number with a 53-bit significand,
  ties to even (normal range only: the values here lie between \<open>1/100\<close> and the list
  length).
\<close>

definition round_half_even :: "rat \<Rightarrow> int" where
  "round_half_even q =
     (let f = \<lfloor>q\<rfloor>; r = q - of_int f
      in if r < 1 / 2 then f else if 1 / 2 < r then f + 1 else if even f then f else f + 1)"

definition binade :: "rat \<Rightarrow> int" where
  "binade q =
     (let (a, b) = quotient_of q; k = bitlen a - bitlen b
      in if 2 powi k \<le> q then k else k - 1)"

definition float_round :: "rat \<Rightarrow> rat" where
  "float_round q =
     (if q = 0 then 0
      else let e = binade \<bar>q\<bar> - 52
           in sgn q * of_int (round_half_even (\<bar>q\<bar> / 2 powi e)) * 2 powi e)"

definition float_div :: "int \<Rightarrow> int \<Rightarrow> rat" where
  "float_div a b = float_round (of_int a / of_int b)"

definition float_mul :: "rat \<Rightarrow> rat \<Rightarrow> rat" where
  "float_mul x y = float_round (x * y)"

definition py_int :: "rat \<Rightarrow> int" where
  "py_int x = (if 0 \<le> x then \<lfloor>x\<rfloor> else \<lceil>x\<rceil>)"

definition split_index :: "nat \<Rightarrow> int \<Rightarrow> int" where
  "split_index n primary_percent =
     py_int (float_mul (float_round (of_nat n)) (float_div primary_percent 100))"

subsection \<open>random.shuffle\<close>

text \<open>
  \<^verbatim>\<open>random.shuffle(x)\<close> is the Fisher-Yates loop of the standard library:
  \<^verbatim>\<open>for i in reversed(range(1, len(x))): j = randbelow(i + 1); x[i], x[j] = x[j], x[i]\<close>.
  The random source is a parameter \<open>rnd\<close>: \<open>rnd i\<close> is the raw draw at step \<open>i\<close>, and
  \<open>rnd i mod (i + 1)\<close> the value of \<^verbatim>\<open>randbelow(i + 1)\<close>.
\<close>

fun shuffle_loop :: "(nat \<Rightarrow> nat) \<Rightarrow> nat \<Rightarrow> 'a list \<Rightarrow> 'a list" where
  "shuffle_loop rnd 0 x = x"
| "shuffle_loop rnd (Suc i) x =
     (let j = rnd (Suc i) mod (Suc i + 1)
      in shuffle_loop rnd i (x[Suc i := x ! j, j := x ! Suc i]))"

definition shuffle :: "(nat \<Rightarrow> nat) \<Rightarrow> 'a list \<Rightarrow> 'a list" where
  "shuffle rnd x = shuffle_loop rnd (length x - 1) x"

subsection \<open>Slices and the split\<close>

text \<open>Python's \<^verbatim>\<open>xs[:k]\<close> and \<^verbatim>\<open>xs[k:]\<close>; a negative \<open>k\<close> counts from the end.\<close>

definition slice_to :: "'a list \<Rightarrow> int \<Rightarrow> 'a list" where
  "slice_to xs k = (if 0 \<le> k then take (nat k) xs else take (length xs - nat (- k)) xs)"

definition slice_from :: "'a list \<Rightarrow> int \<Rightarrow> 'a list" where
  "slice_from xs k = (if 0 \<le> k then drop (nat k) xs else drop (length xs - nat (- k)) xs)"

text \<open>
  The result dict \<^verbatim>\<open>{'campaign_a': ..., 'campaign_b': ...}\<close> is an association list in
  insertion order, which is the order \<^verbatim>\<open>push_to_instantly\<close> iterates it in.
\<close>

type_synonym contacts_split = "(string \<times> contact list) list"

definition split_contacts ::
  "(nat \<Rightarrow> nat) \<Rightarrow> contact list \<Rightarrow> int \<Rightarrow> error + contacts_split" where
  "split_contacts rnd contacts primary_percent =
     (if \<not> (0 \<le> primary_percent \<and> primary_percent \<le> 100) then Inl Percentage_out_of_range
      else let shuffled = shuffle rnd contacts;
               k = split_index (length contacts) primary_percent
           in Inr [(''campaign_a'', slice_to shuffled k), (''campaign_b'', slice_from shuffled k)])"

text \<open>A list of \<open>n\<close> distinct contacts, for concrete runs.\<close>

definition numbered_contact :: "nat \<Rightarrow> contact" where
  "numbered_contact i =
     \<lparr>contact_id = None, first_name = [], last_name = [],
      email = replicate (Suc i) (CHR ''a'') @ ''@example.com'',
      company = [], linkedin = [], annual_revenue = [], company_headcount = []\<rparr>"

section \<open>External services\<close>

text \<open>
  The functions below talk to HTTP services and sleep.  A service is a parameter of the
  model: a function from the number of requests made so far and the request to the
  response, so that the same request may be answered differently when it is repeated.
  \<open>No_response\<close> stands for \<^verbatim>\<open>requests.post\<close> or \<^verbatim>\<open>requests.get\<close> raising
  (connection error, timeout); \<open>Response status body\<close> is a response with its status
  code, the body being \<open>None\<close> when \<^verbatim>\<open>response.json()\<close> raises.  Each model returns,
  beside its result, the trace of the requests it made and of its calls of
  \<^verbatim>\<open>time.sleep\<close> (in seconds).  \<^verbatim>\<open>print\<close> is not modelled.
\<close>

datatype 'b response = No_response | Response nat "'b option"

text \<open>\<^verbatim>\<open>response.raise_for_status()\<close> raises \<^verbatim>\<open>HTTPError\<close> for a 4xx or 5xx status.\<close>

definition raises_for_status :: "nat \<Rightarrow> bool" where
  "raises_for_status status = (400 \<le> status \<and> status < 600)"

text \<open>
  The campaign provider: the lead record that \<^verbatim>\<open>push_to_instantly\<close> sends, and the four
  requests made to it: the upload of one lead (\<^verbatim>\<open>POST /leads\<close>), the upload of several
  (\<^verbatim>\<open>POST /leads/list\<close> with \<^verbatim>\<open>{"leads": ...}\<close>), the listing of the leads of a
  campaign under a filter from a cursor (\<^verbatim>\<open>POST /leads/list\<close> with \<^verbatim>\<open>limit = 100\<close>),
  and the removal of emails from a campaign (\<^verbatim>\<open>POST /leads/remove\<close>).
\<close>

record lead =
  lead_email :: string
  lead_first_name :: string
  lead_last_name :: string
  lead_company :: string
  lead_linkedin :: string
  lead_campaign_id :: string

datatype instantly_request =
  Add_lead lead
  | Add_leads "lead list"
  | List_leads string string "string option"
  | Remove_leads string "string list"

text \<open>
  The events of a trace: a sleep, a search request to the source list (\<^verbatim>\<open>per_page\<close>
  and page number), the creation of a verification task for a batch of emails, a poll
  (batch number and attempt), and a request to the campaign provider together with the
  status code of its response (\<open>None\<close> when the request raised).
\<close>

datatype event =
  Sleep nat
  | Apollo_search nat nat
  | Reoon_create "string list"
  | Reoon_poll nat nat
  | Instantly instantly_request "nat option"

section \<open>apollo.py: fetch_all_contacts_from_list\<close>

text \<open>
  A record of the source list as the provider returns it.  A field is \<open>None\<close> when the
  key is absent from the JSON object; a field that is present holds a value of the type
  the code expects (a string, and an object for \<^verbatim>\<open>organization\<close>).  A JSON
  \<^verbatim>\<open>null\<close> for \<^verbatim>\<open>organization\<close>, on which \<^verbatim>\<open>.get\<close> raises, is not in the model.
\<close>

record organization =
  org_name :: "string option"
  org_annual_revenue :: "string option"
  org_estimated_num_employees :: "string option"

record raw_contact =
  raw_id :: "string option"
  raw_first_name :: "string option"
  raw_last_name :: "string option"
  raw_email :: "string option"
  raw_organization :: "organization option"
  raw_linkedin_url :: "string option"

record page_data =
  pd_total_pages :: "nat option"
  pd_contacts :: "raw_contact list"

text \<open>\<^verbatim>\<open>d.get(key, '')\<close> and \<^verbatim>\<open>contact.get('organization', {}).get(key, '')\<close>.\<close>

fun get_or_empty :: "string option \<Rightarrow> string" where
  "get_or_empty None = []"
| "get_or_empty (Some s) = s"

definition organization_get :: "(organization \<Rightarrow> string option) \<Rightarrow> raw_contact \<Rightarrow> string" where
  "organization_get field c =
     (case raw_organization c of None \<Rightarrow> [] | Some org \<Rightarrow> get_or_empty (field org))"

text \<open>
  The dict appended to \<^verbatim>\<open>all_contacts\<close>.  It is built only under
  \<^verbatim>\<open>if contact.get('email')\<close>, where \<^verbatim>\<open>contact['email']\<close> is the string of
  \<open>raw_email\<close>.
\<close>

definition normalise :: "raw_contact \<Rightarrow> contact" where
  "normalise c =
     \<lparr>contact_id = raw_id c,
      first_name = get_or_empty (raw_first_name c),
      last_name = get_or_empty (raw_last_name c),
      email = get_or_empty (raw_email c),
      company = organization_get org_name c,
      linkedin = get_or_empty (raw_linkedin_url c),
      annual_revenue = organization_get org_annual_revenue c,
      company_headcount = organization_get org_estimated_num_employees c\<rparr>"

text \<open>The inner \<^verbatim>\<open>for contact in contacts_on_page\<close> loop: what one page adds.\<close>

fun page_contacts :: "raw_contact list \<Rightarrow> contact list" where
  "page_contacts [] = []"
| "page_contacts (c # cs) =
     (if truthy (raw_email c) then normalise c # page_contacts cs else page_contacts cs)"

text \<open>
  The environment.  \<^verbatim>\<open>TEST_MODE_PAGES\<close> is unset (or empty), or a string that
  \<^verbatim>\<open>int\<close> parses, or one on which \<^verbatim>\<open>int\<close> raises \<^verbatim>\<open>ValueError\<close>.
\<close>

datatype page_cap = Cap_unset | Cap_int int | Cap_not_a_number

record apollo_env =
  apollo_api_key :: "string option"
  apollo_list_id :: "string option"
  test_mode_pages :: page_cap

text \<open>
  \<^verbatim>\<open>if test_mode_pages and page > int(test_mode_pages): break\<close>, at the head of the
  loop and outside the \<^verbatim>\<open>try\<close>: \<open>Inr True\<close> is the \<^verbatim>\<open>break\<close>.
\<close>

fun cap_check :: "page_cap \<Rightarrow> nat \<Rightarrow> error + bool" where
  "cap_check Cap_unset page = Inr False"
| "cap_check (Cap_int c) page = Inr (c < int page)"
| "cap_check Cap_not_a_number page = Inl Invalid_int_literal"

text \<open>
  The body of the \<^verbatim>\<open>try\<close> and its handlers, for the response to the request of
  \<open>page\<close>: either the loop is left (\<open>Leave\<close>: a \<^verbatim>\<open>break\<close> or a \<^verbatim>\<open>raise\<close>), or it goes on
  with a page number and the contacts so far (\<open>Go_on\<close>); both with the sleeps made.
  \<^verbatim>\<open>total_pages\<close> is only printed.
\<close>

datatype fetch_step =
  Leave "error + contact list" "event list"
  | Go_on nat "contact list" "event list"

fun handle_response :: "page_data response \<Rightarrow> nat \<Rightarrow> contact list \<Rightarrow> fetch_step" where
  "handle_response No_response page all_contacts = Leave (Inl (Unexpected_error_on_page page)) []"
| "handle_response (Response status body) page all_contacts =
     (if raises_for_status status then
        (if status = 429 then Go_on page all_contacts [Sleep 900]
         else Leave (Inl (Http_error_on_page status page)) [])
      else
        (case body of
           None \<Rightarrow> Leave (Inl (Unexpected_error_on_page page)) []
         | Some data \<Rightarrow>
             if pd_contacts data = [] then Leave (Inr all_contacts) []
             else Go_on (page + 1) (all_contacts @ page_contacts (pd_contacts data)) [Sleep 1]))"

text \<open>
  The \<^verbatim>\<open>while True\<close> loop.  It may run forever (a source that keeps answering 429, or
  that never returns an empty page), so the model takes fuel, one unit for each
  iteration, and its result is \<open>None\<close> when the fuel runs out.  \<open>t\<close> counts the requests
  made; the payload of a request is \<^verbatim>\<open>per_page = 100\<close> and the page number.
\<close>

fun fetch_loop ::
  "nat \<Rightarrow> page_cap \<Rightarrow> (nat \<Rightarrow> nat \<Rightarrow> page_data response) \<Rightarrow> nat \<Rightarrow> nat \<Rightarrow> contact list
     \<Rightarrow> event list \<Rightarrow> (error + contact list) option \<times> event list" where
  "fetch_loop 0 cap srv t page all_contacts tr = (None, tr)"
| "fetch_loop (Suc fuel) cap srv t page all_contacts tr =
     (case cap_check cap page of
        Inl e \<Rightarrow> (Some (Inl e), tr)
      | Inr True \<Rightarrow> (Some (Inr all_contacts), tr)
      | Inr False \<Rightarrow>
          (case handle_response (srv t page) page all_contacts of
             Leave r ev \<Rightarrow> (Some r, tr @ Apollo_search 100 page # ev)
           | Go_on page' all_contacts' ev \<Rightarrow>
               fetch_loop fuel cap srv (Suc t) page' all_contacts'
                 (tr @ Apollo_search 100 page # ev)))"

definition credentials_ok :: "apollo_env \<Rightarrow> bool" where
  "credentials_ok env =
     (truthy (apollo_api_key env) \<and> truthy (apollo_list_id env)
      \<and> \<not> sublist ''REPLACE_WITH'' (get_or_empty (apollo_list_id env)))"

definition fetch_all_contacts_from_list ::
  "apollo_env \<Rightarrow> (nat \<Rightarrow> nat \<Rightarrow> page_data response) \<Rightarrow> nat
     \<Rightarrow> (error + contact list) option \<times> event list" where
  "fetch_all_contacts_from_list env srv fuel =
     (if \<not> truthy (apollo_api_key env) \<or> \<not> truthy (apollo_list_id env)
      then (Some (Inl Missing_credentials), [])
      else if sublist ''REPLACE_WITH'' (get_or_empty (apollo_list_id env))
      then (Some (Inl Placeholder_list_id), [])
      else fetch_loop fuel (test_mode_pages env) srv 0 1 [] [])"

text \<open>
  A source that answers the request of page \<open>p\<close> with status 200 and the \<open>p\<close>-th list
  of \<open>pages\<close>, and with an empty page beyond them.
\<close>

definition paged_source :: "raw_contact list list \<Rightarrow> nat \<Rightarrow> nat \<Rightarrow> page_data response" where
  "paged_source pages t p =
     Response 200 (Some \<lparr>pd_total_pages = Some (length pages),
       pd_contacts = (if 1 \<le> p \<and> p \<le> length pages then pages ! (p - 1) else [])\<rparr>)"

text \<open>The test-mode cap does not stop the fetch before page \<open>n\<close> has been requested.\<close>

fun cap_allows :: "page_cap \<Rightarrow> nat \<Rightarrow> bool" where
  "cap_allows Cap_unset n = True"
| "cap_allows (Cap_int c) n = (int n \<le> c)"
| "cap_allows Cap_not_a_number n = False"

definition numbered_raw_contact :: "nat \<Rightarrow> raw_contact" where
  "numbered_raw_contact i =
     \<lparr>raw_id = None, raw_first_name = None, raw_last_name = None,
      raw_email = Some (replicate (Suc i) (CHR ''a'') @ ''@example.com''),
      raw_organization = None, raw_linkedin_url = None\<rparr>"

definition apollo_env_example :: apollo_env where
  "apollo_env_example =
     \<lparr>apollo_api_key = Some ''key'', apollo_list_id = Some ''list-1'', test_mode_pages = Cap_unset\<rparr>"

text \<open>
  The source \<open>paged_source pages\<close>, except that the request number \<open>k\<close> (counted from
  0) is answered with HTTP 429.
\<close>

definition rate_limited_source ::
  "nat \<Rightarrow> raw_contact list list \<Rightarrow> nat \<Rightarrow> nat \<Rightarrow> page_data response" where
  "rate_limited_source k pages t p = (if t = k then Response 429 None else paged_source pages t p)"

text \<open>Three pages of 100, 100 and 37 records, all with an email.\<close>

definition pages_100_100_37 :: "raw_contact list list" where
  "pages_100_100_37 =
     [map numbered_raw_contact [0..<100], map numbered_raw_contact [100..<200],
      map numbered_raw_contact [200..<237]]"

section \<open>reoon.py: verify_emails\<close>

text \<open>
  One entry of the \<^verbatim>\<open>results\<close> object of a completed task.  The two flags are read by
  truthiness; \<open>None\<close> is an absent key.  \<^verbatim>\<open>overall_score\<close> is kept as the text that the
  f-string prints for it.
\<close>

record verification =
  is_safe_to_send :: bool
  is_deliverable :: bool
  v_status :: "string option"
  overall_score :: "string option"

text \<open>The dict \<^verbatim>\<open>{'email': ..., 'reason': ..., 'details': ...}\<close> of an invalid email.\<close>

record invalid_contact =
  inv_email :: string
  inv_reason :: string
  inv_details :: string

text \<open>
  \<^verbatim>\<open>results_data\<close>: the body of a poll response, with \<^verbatim>\<open>results_data.get('status')\<close>
  and \<^verbatim>\<open>results_data.get('results', {})\<close>, the latter as the list of its items in the
  order of iteration.
\<close>

record poll_data =
  task_status :: "string option"
  task_results :: "(string \<times> verification) list"

text \<open>
  The verification service: the response to the creation of the task of batch number
  \<open>b\<close> (its body is \<^verbatim>\<open>task_data.get('task_id')\<close>), and the response to the \<open>k\<close>-th poll
  of the task of batch \<open>b\<close>.
\<close>

record reoon_service =
  create_task :: "nat \<Rightarrow> string list \<Rightarrow> (string option) response"
  get_result :: "nat \<Rightarrow> nat \<Rightarrow> poll_data response"

text \<open>
  \<^verbatim>\<open>xs[i:i + n] for i in range(0, len(xs), n)\<close> for a positive \<open>n\<close>: the batches of
  \<^verbatim>\<open>verify_emails\<close>, \<^verbatim>\<open>push_to_instantly\<close> and \<^verbatim>\<open>delete_finished_leads\<close>.
\<close>

function batches_of :: "nat \<Rightarrow> 'a list \<Rightarrow> 'a list list" where
  "batches_of n xs = (if n = 0 \<or> xs = [] then [] else take n xs # batches_of n (drop n xs))"
  by pat_completeness auto
termination
  by (relation "measure (\<lambda>(n, xs). length xs)") auto

declare batches_of.simps [simp del]

text \<open>\<^verbatim>\<open>contact_map = {contact['email']: contact for contact in contacts}\<close>: a later
  contact with the same email replaces an earlier one.\<close>

definition contact_map :: "contact list \<Rightarrow> string \<rightharpoonup> contact" where
  "contact_map contacts = map_of (rev (map (\<lambda>c. (email c, c)) contacts))"

text \<open>The record appended to \<^verbatim>\<open>invalid_contacts\<close>.\<close>

definition invalid_record :: "string \<Rightarrow> verification \<Rightarrow> invalid_contact" where
  "invalid_record e v =
     (let reason = (case v_status v of None \<Rightarrow> ''unknown'' | Some s \<Rightarrow> s)
      in \<lparr>inv_email = e, inv_reason = reason,
          inv_details = ''Score: '' @ (case overall_score v of None \<Rightarrow> ''None'' | Some s \<Rightarrow> s)
                          @ '', Status: '' @ reason\<rparr>)"

text \<open>
  \<^verbatim>\<open>for email, verification in results.items()\<close>: \<^verbatim>\<open>contact_map[email]\<close> raises
  \<^verbatim>\<open>KeyError\<close> for an email that is not a key, before the entry is classified; the outer
  handler turns it into \<^verbatim>\<open>Exception("Verification failed: ...")\<close>.
\<close>

fun process_results ::
  "(string \<rightharpoonup> contact) \<Rightarrow> (string \<times> verification) list \<Rightarrow> contact list \<Rightarrow> invalid_contact list
     \<Rightarrow> error + contact list \<times> invalid_contact list" where
  "process_results cm [] valid_contacts invalid_contacts = Inr (valid_contacts, invalid_contacts)"
| "process_results cm ((e, v) # results) valid_contacts invalid_contacts =
     (case cm e of
        None \<Rightarrow> Inl (Verification_failed (KeyError e))
      | Some c \<Rightarrow>
          if is_safe_to_send v \<and> is_deliverable v
          then process_results cm results (valid_contacts @ [c]) invalid_contacts
          else process_results cm results valid_contacts (invalid_contacts @ [invalid_record e v]))"

text \<open>
  The polling loop \<^verbatim>\<open>for attempt in range(max_tries)\<close> with its \<^verbatim>\<open>else\<close> branch:
  \<open>poll_task get b attempt n\<close> has \<open>n\<close> attempts left, the next one being number
  \<open>attempt\<close>.  Each attempt sleeps 10 seconds and then polls.  A failed request, an error
  status and an unreadable body raise inside the \<^verbatim>\<open>try\<close> and end as the
  \<^verbatim>\<open>Exception\<close> of the \<^verbatim>\<open>RequestException\<close> handler.
\<close>

fun poll_task ::
  "(nat \<Rightarrow> poll_data response) \<Rightarrow> nat \<Rightarrow> nat \<Rightarrow> nat
     \<Rightarrow> (error + (string \<times> verification) list) \<times> event list" where
  "poll_task get b attempt 0 = (Inl (Verification_failed Not_completed), [])"
| "poll_task get b attempt (Suc n) =
     (case get attempt of
        No_response \<Rightarrow> (Inl Reoon_request_failed, [Sleep 10, Reoon_poll b attempt])
      | Response status body \<Rightarrow>
          if raises_for_status status then (Inl Reoon_request_failed, [Sleep 10, Reoon_poll b attempt])
          else
            (case body of
               None \<Rightarrow> (Inl Reoon_request_failed, [Sleep 10, Reoon_poll b attempt])
             | Some results_data \<Rightarrow>
                 if task_status results_data = Some ''completed''
                 then (Inr (task_results results_data), [Sleep 10, Reoon_poll b attempt])
                 else (case poll_task get b (Suc attempt) n of
                         (r, tr) \<Rightarrow> (r, Sleep 10 # Reoon_poll b attempt # tr))))"

text \<open>The body of the loop over the batches, for batch number \<open>b\<close>, without the final sleep.\<close>

definition verify_batch ::
  "reoon_service \<Rightarrow> (string \<rightharpoonup> contact) \<Rightarrow> nat \<Rightarrow> string list \<Rightarrow> contact list
     \<Rightarrow> invalid_contact list \<Rightarrow> (error + contact list \<times> invalid_contact list) \<times> event list" where
  "verify_batch srv cm b batch valid_contacts invalid_contacts =
     (case create_task srv b batch of
        No_response \<Rightarrow> (Inl Reoon_request_failed, [Reoon_create batch])
      | Response status body \<Rightarrow>
          if raises_for_status status then (Inl Reoon_request_failed, [Reoon_create batch])
          else
            (case body of
               None \<Rightarrow> (Inl Reoon_request_failed, [Reoon_create batch])
             | Some task_id \<Rightarrow>
                 if \<not> truthy task_id then (Inl (Verification_failed No_task_id), [Reoon_create batch])
                 else
                   (case poll_task (get_result srv b) b 0 18 of
                      (Inl e, tr) \<Rightarrow> (Inl e, Reoon_create batch # tr)
                    | (Inr results, tr) \<Rightarrow>
                        (process_results cm results valid_contacts invalid_contacts,
                         Reoon_create batch # tr))))"

fun verify_batches ::
  "reoon_service \<Rightarrow> (string \<rightharpoonup> contact) \<Rightarrow> nat \<Rightarrow> string list list \<Rightarrow> contact list
     \<Rightarrow> invalid_contact list \<Rightarrow> event list
     \<Rightarrow> (error + contact list \<times> invalid_contact list) \<times> event list" where
  "verify_batches srv cm b [] valid_contacts invalid_contacts tr =
     (Inr (valid_contacts, invalid_contacts), tr)"
| "verify_batches srv cm b (batch # rest) valid_contacts invalid_contacts tr =
     (case verify_batch srv cm b batch valid_contacts invalid_contacts of
        (Inl e, ev) \<Rightarrow> (Inl e, tr @ ev)
      | (Inr (valid_contacts', invalid_contacts'), ev) \<Rightarrow>
          verify_batches srv cm (Suc b) rest valid_contacts' invalid_contacts' (tr @ ev @ [Sleep 2]))"

text \<open>
  \<^verbatim>\<open>verify_emails\<close>.  \<open>api_key\<close> is \<^verbatim>\<open>os.getenv("REOON_API_KEY")\<close>.  The last
  \<^verbatim>\<open>print\<close> divides by \<^verbatim>\<open>len(contacts)\<close>, outside the \<^verbatim>\<open>try\<close>.
\<close>

definition verify_emails ::
  "string option \<Rightarrow> reoon_service \<Rightarrow> contact list
     \<Rightarrow> (error + contact list \<times> invalid_contact list) \<times> event list" where
  "verify_emails api_key srv contacts =
     (if \<not> truthy api_key then (Inl Missing_credentials, [])
      else
        (case verify_batches srv (contact_map contacts) 0 (batches_of 100 (map email contacts)) [] [] [] of
           (Inl e, tr) \<Rightarrow> (Inl e, tr)
         | (Inr r, tr) \<Rightarrow> if contacts = [] then (Inl ZeroDivisionError, tr) else (Inr r, tr)))"

text \<open>The result set of the completed task of batch \<open>b\<close> (empty when it did not complete),
  and the result sets of the batches \<open>b, ..., b + n - 1\<close> together.\<close>

definition task_result :: "reoon_service \<Rightarrow> nat \<Rightarrow> (string \<times> verification) list" where
  "task_result srv b =
     (case fst (poll_task (get_result srv b) b 0 18) of Inl e \<Rightarrow> [] | Inr results \<Rightarrow> results)"

definition returned_results :: "reoon_service \<Rightarrow> nat \<Rightarrow> nat \<Rightarrow> (string \<times> verification) list" where
  "returned_results srv b n = concat (map (task_result srv) [b..<b + n])"

text \<open>What a poll response says: the task is completed, or the task is still running.\<close>

fun reports_completed :: "poll_data response \<Rightarrow> bool" where
  "reports_completed No_response = False"
| "reports_completed (Response status None) = False"
| "reports_completed (Response status (Some d)) =
     (\<not> raises_for_status status \<and> task_status d = Some ''completed'')"

fun still_running :: "poll_data response \<Rightarrow> bool" where
  "still_running No_response = False"
| "still_running (Response status None) = False"
| "still_running (Response status (Some d)) =
     (\<not> raises_for_status status \<and> task_status d \<noteq> Some ''completed'')"

text \<open>A service whose tasks never complete, and one that completes every task at the
  first poll with the given results.\<close>

definition stalled_service :: reoon_service where
  "stalled_service =
     \<lparr>create_task = (\<lambda>b batch. Response 200 (Some (Some ''task''))),
      get_result = (\<lambda>b k. Response 200 (Some \<lparr>task_status = Some ''running'', task_results = []\<rparr>))\<rparr>"

definition prompt_service :: "(string \<times> verification) list \<Rightarrow> reoon_service" where
  "prompt_service results =
     \<lparr>create_task = (\<lambda>b batch. Response 200 (Some (Some ''task''))),
      get_result = (\<lambda>b k. Response 200 (Some \<lparr>task_status = Some ''completed'', task_results = results\<rparr>))\<rparr>"

definition verdict :: "bool \<Rightarrow> bool \<Rightarrow> verification" where
  "verdict safe deliverable =
     \<lparr>is_safe_to_send = safe, is_deliverable = deliverable, v_status = Some ''checked'',
      overall_score = Some ''50''\<rparr>"

text \<open>
  A service that completes every task at the first poll and returns the one email \<open>e\<close>,
  deliverable in the task of the first batch and not deliverable in the later ones.
\<close>

definition changing_service :: "string \<Rightarrow> reoon_service" where
  "changing_service e =
     \<lparr>create_task = (\<lambda>b batch. Response 200 (Some (Some ''task''))),
      get_result = (\<lambda>b k. Response 200
         (Some \<lparr>task_status = Some ''completed'', task_results = [(e, verdict True (b = 0))]\<rparr>))\<rparr>"

section \<open>instantly.py: push_to_instantly\<close>

record instantly_env =
  instantly_api_key :: "string option"
  campaign_primary_id :: "string option"
  campaign_secondary_id :: "string option"

text \<open>
  A page of the lead listing: the emails of \<^verbatim>\<open>data.get('data', [])\<close> and
  \<^verbatim>\<open>data.get("next_starting_after")\<close>.  The body of the response to an upload or to a
  removal is not read.
\<close>

record lead_page =
  lp_data :: "string list"
  lp_next_starting_after :: "string option"

type_synonym instantly_service = "nat \<Rightarrow> instantly_request \<Rightarrow> lead_page response"

definition campaign_ids :: "instantly_env \<Rightarrow> (string \<times> string option) list" where
  "campaign_ids env =
     [(''campaign_a'', campaign_primary_id env), (''campaign_b'', campaign_secondary_id env)]"

text \<open>\<^verbatim>\<open>campaign_ids.get(campaign_key)\<close>.\<close>

definition campaign_ids_get :: "instantly_env \<Rightarrow> string \<Rightarrow> string option" where
  "campaign_ids_get env campaign_key =
     (case map_of (campaign_ids env) campaign_key of None \<Rightarrow> None | Some v \<Rightarrow> v)"

definition lead_data :: "string \<Rightarrow> contact \<Rightarrow> lead" where
  "lead_data campaign_id c =
     \<lparr>lead_email = email c, lead_first_name = first_name c, lead_last_name = last_name c,
      lead_company = company c, lead_linkedin = linkedin c, lead_campaign_id = campaign_id\<rparr>"

text \<open>
  The batches \<^verbatim>\<open>contact_list[i:i + batch_size] for i in range(0, len(contact_list), batch_size)\<close>
  of a non-empty list: \<^verbatim>\<open>range\<close> raises \<^verbatim>\<open>ValueError\<close> for a zero step and is
  empty for a negative one.
\<close>

definition range_batches :: "int \<Rightarrow> 'a list \<Rightarrow> error + 'a list list" where
  "range_batches batch_size xs =
     (if batch_size = 0 then Inl Range_step_zero
      else if batch_size < 0 then Inr []
      else Inr (batches_of (nat batch_size) xs))"

definition upload_request :: "string \<Rightarrow> contact list \<Rightarrow> instantly_request" where
  "upload_request campaign_id batch =
     (case map (lead_data campaign_id) batch of
        [l] \<Rightarrow> Add_lead l
      | leads_payload \<Rightarrow> Add_leads leads_payload)"

text \<open>
  The loop over the batches of one campaign.  \<open>t\<close> counts the requests made to the
  provider.  A request that raises is caught by \<^verbatim>\<open>except Exception\<close> (and the sleep is
  skipped); a status other than 200 and 201 is only printed.
\<close>

fun upload_batches ::
  "instantly_service \<Rightarrow> string \<Rightarrow> contact list list \<Rightarrow> nat \<Rightarrow> nat \<Rightarrow> event list
     \<Rightarrow> nat \<times> nat \<times> event list" where
  "upload_batches srv campaign_id [] t total_uploaded tr = (t, total_uploaded, tr)"
| "upload_batches srv campaign_id (batch # rest) t total_uploaded tr =
     (case srv t (upload_request campaign_id batch) of
        No_response \<Rightarrow>
          upload_batches srv campaign_id rest (Suc t) total_uploaded
            (tr @ [Instantly (upload_request campaign_id batch) None])
      | Response status body \<Rightarrow>
          upload_batches srv campaign_id rest (Suc t)
            (if status = 200 \<or> status = 201 then total_uploaded + length batch else total_uploaded)
            (tr @ [Instantly (upload_request campaign_id batch) (Some status), Sleep 1]))"

text \<open>The loop \<^verbatim>\<open>for campaign_key, contact_list in contacts_split.items()\<close>.\<close>

fun push_campaigns ::
  "instantly_env \<Rightarrow> instantly_service \<Rightarrow> int \<Rightarrow> contacts_split \<Rightarrow> nat \<Rightarrow> nat \<Rightarrow> event list
     \<Rightarrow> (error + nat) \<times> event list" where
  "push_campaigns env srv batch_size [] t total_uploaded tr = (Inr total_uploaded, tr)"
| "push_campaigns env srv batch_size ((campaign_key, contact_list) # rest) t total_uploaded tr =
     (case campaign_ids_get env campaign_key of
        None \<Rightarrow> push_campaigns env srv batch_size rest t total_uploaded tr
      | Some campaign_id \<Rightarrow>
          if campaign_id = [] then push_campaigns env srv batch_size rest t total_uploaded tr
          else if contact_list = [] then push_campaigns env srv batch_size rest t total_uploaded tr
          else
            (case range_batches batch_size contact_list of
               Inl e \<Rightarrow> (Inl e, tr)
             | Inr batches \<Rightarrow>
                 (case upload_batches srv campaign_id batches t total_uploaded tr of
                    (t', total_uploaded', tr') \<Rightarrow>
                      push_campaigns env srv batch_size rest t' total_uploaded' tr')))"

text \<open>
  \<^verbatim>\<open>if not api_key or not all(campaign_ids.values()): raise ValueError(...)\<close>: the API key
  and both campaign identifiers are required before anything is uploaded.
\<close>

definition push_to_instantly ::
  "instantly_env \<Rightarrow> instantly_service \<Rightarrow> contacts_split \<Rightarrow> int \<Rightarrow> (error + nat) \<times> event list" where
  "push_to_instantly env srv contacts_split batch_size =
     (if \<not> truthy (instantly_api_key env) \<or> \<not> list_all truthy (map snd (campaign_ids env))
      then (Inl Missing_credentials, [])
      else push_campaigns env srv batch_size contacts_split 0 0 [])"

text \<open>
  Read off a trace: the number of leads of an upload request that was answered with
  status 200 or 201, their sum over the trace, and the sizes of the uploads in order.
\<close>

fun leads_accepted :: "event \<Rightarrow> nat" where
  "leads_accepted (Instantly (Add_lead l) (Some status)) =
     (if status = 200 \<or> status = 201 then 1 else 0)"
| "leads_accepted (Instantly (Add_leads ls) (Some status)) =
     (if status = 200 \<or> status = 201 then length ls else 0)"
| "leads_accepted ev = 0"

definition uploaded_count :: "event list \<Rightarrow> nat" where
  "uploaded_count tr = sum_list (map leads_accepted tr)"

fun upload_sizes :: "event list \<Rightarrow> nat list" where
  "upload_sizes [] = []"
| "upload_sizes (Instantly (Add_lead l) status # tr) = 1 # upload_sizes tr"
| "upload_sizes (Instantly (Add_leads ls) status # tr) = length ls # upload_sizes tr"
| "upload_sizes (ev # tr) = upload_sizes tr"

text \<open>The provider accepts a request: it answers it with status 200 or 201.\<close>

fun accepted :: "lead_page response \<Rightarrow> bool" where
  "accepted No_response = False"
| "accepted (Response status body) = (status = 200 \<or> status = 201)"

text \<open>
  What the uploader is to do, from the description of the stage rather than from its
  loops.  The destination of a campaign key is the primary identifier for
  \<^verbatim>\<open>campaign_a\<close>, the secondary one for \<^verbatim>\<open>campaign_b\<close>, and none for any other key.
  The planned batches are, for each entry of the mapping that has a destination, in the
  order of the mapping, the successive batches of its contact list, each with its
  destination.  The request number \<open>t + i\<close> carries the \<open>i\<close>-th planned batch: a batch
  of one contact goes to the single-record path, any other to the bulk path, each contact
  as a lead with its email, names, company, LinkedIn handle and the destination.  The
  uploaded total is the number of contacts in the planned batches whose request the
  provider answers with 200 or 201, and the expected trace is each request with the
  status of its answer, followed by a one-second sleep when there was an answer.
\<close>

definition destination :: "instantly_env \<Rightarrow> string \<Rightarrow> string option" where
  "destination env campaign_key =
     (if campaign_key = ''campaign_a'' then campaign_primary_id env
      else if campaign_key = ''campaign_b'' then campaign_secondary_id env
      else None)"

definition planned_batches ::
  "instantly_env \<Rightarrow> int \<Rightarrow> contacts_split \<Rightarrow> (string \<times> contact list) list" where
  "planned_batches env batch_size contacts_split =
     concat (map (\<lambda>(campaign_key, contact_list).
                    if truthy (destination env campaign_key)
                    then map (\<lambda>batch. (get_or_empty (destination env campaign_key), batch))
                           (batches_of (nat batch_size) contact_list)
                    else [])
               contacts_split)"

definition planned_request :: "string \<Rightarrow> contact list \<Rightarrow> instantly_request" where
  "planned_request destination_id batch =
     (let as_lead = (\<lambda>c. \<lparr>lead_email = email c, lead_first_name = first_name c,
                           lead_last_name = last_name c, lead_company = company c,
                           lead_linkedin = linkedin c, lead_campaign_id = destination_id\<rparr>)
      in if length batch = 1 then Add_lead (as_lead (hd batch)) else Add_leads (map as_lead batch))"

fun uploaded_total :: "instantly_service \<Rightarrow> nat \<Rightarrow> (string \<times> contact list) list \<Rightarrow> nat" where
  "uploaded_total srv t [] = 0"
| "uploaded_total srv t ((campaign_id, batch) # rest) =
     (if accepted (srv t (planned_request campaign_id batch)) then length batch else 0)
       + uploaded_total srv (Suc t) rest"

fun upload_events :: "instantly_service \<Rightarrow> nat \<Rightarrow> (string \<times> contact list) list \<Rightarrow> event list" where
  "upload_events srv t [] = []"
| "upload_events srv t ((campaign_id, batch) # rest) =
     (case srv t (planned_request campaign_id batch) of
        No_response \<Rightarrow> [Instantly (planned_request campaign_id batch) None]
      | Response status body \<Rightarrow> [Instantly (planned_request campaign_id batch) (Some status), Sleep 1])
       @ upload_events srv (Suc t) rest"

definition instantly_credentials_ok :: "instantly_env \<Rightarrow> bool" where
  "instantly_credentials_ok env =
     (truthy (instantly_api_key env) \<and> truthy (campaign_primary_id env)
      \<and> truthy (campaign_secondary_id env))"

definition instantly_env_example :: instantly_env where
  "instantly_env_example =
     \<lparr>instantly_api_key = Some ''key'', campaign_primary_id = Some ''primary-id'',
      campaign_secondary_id = Some ''secondary-id''\<rparr>"

text \<open>A provider that answers every request with 200, except request number 1 (the
  second), which it answers with 500.\<close>

definition second_request_fails :: instantly_service where
  "second_request_fails t request = (if t = 1 then Response 500 None else Response 200 None)"

section \<open>instantly.py: delete_finished_leads\<close>

text \<open>
  The pagination loop \<^verbatim>\<open>while True\<close> for one campaign and one filter.  The cursor is
  sent only when it is truthy.  The loop has no bound of its own, so the model takes fuel;
  the result is \<open>None\<close> when it runs out.  Nothing is caught here: a failed request, an
  error status and an unreadable body raise out of \<^verbatim>\<open>delete_finished_leads\<close>.  The
  result carries the emails accumulated and the new request count.
\<close>

fun list_loop ::
  "nat \<Rightarrow> instantly_service \<Rightarrow> string \<Rightarrow> string \<Rightarrow> nat \<Rightarrow> string option \<Rightarrow> string list \<Rightarrow> event list
     \<Rightarrow> (error + string list \<times> nat) option \<times> event list" where
  "list_loop 0 srv campaign_id filter_val t starting_after emails_to_delete tr = (None, tr)"
| "list_loop (Suc fuel) srv campaign_id filter_val t starting_after emails_to_delete tr =
     (let request = List_leads campaign_id filter_val
                      (if truthy starting_after then starting_after else None)
      in case srv t request of
           No_response \<Rightarrow> (Some (Inl ConnectionError), tr @ [Instantly request None])
         | Response status body \<Rightarrow>
             if raises_for_status status
             then (Some (Inl (HTTPError status)), tr @ [Instantly request (Some status)])
             else
               (case body of
                  None \<Rightarrow> (Some (Inl JSONDecodeError), tr @ [Instantly request (Some status)])
                | Some data \<Rightarrow>
                    if \<not> truthy (lp_next_starting_after data) \<or> lp_data data = []
                    then (Some (Inr (emails_to_delete @ lp_data data, Suc t)),
                          tr @ [Instantly request (Some status)])
                    else list_loop fuel srv campaign_id filter_val (Suc t)
                           (lp_next_starting_after data) (emails_to_delete @ lp_data data)
                           (tr @ [Instantly request (Some status)])))"

definition filter_values :: "string list" where
  "filter_values = [''FILTER_VAL_COMPLETED'']"

text \<open>\<^verbatim>\<open>for filter_val in filter_values\<close>, each filter starting without a cursor.\<close>

fun list_filters ::
  "nat \<Rightarrow> instantly_service \<Rightarrow> string \<Rightarrow> string list \<Rightarrow> nat \<Rightarrow> string list \<Rightarrow> event list
     \<Rightarrow> (error + string list \<times> nat) option \<times> event list" where
  "list_filters fuel srv campaign_id [] t emails_to_delete tr = (Some (Inr (emails_to_delete, t)), tr)"
| "list_filters fuel srv campaign_id (filter_val # rest) t emails_to_delete tr =
     (case list_loop fuel srv campaign_id filter_val t None emails_to_delete tr of
        (Some (Inr (emails_to_delete', t')), tr') \<Rightarrow>
          list_filters fuel srv campaign_id rest t' emails_to_delete' tr'
      | (r, tr') \<Rightarrow> (r, tr'))"

text \<open>The deletion in batches of 100: only status 200 counts; a request that raises is
  not caught.\<close>

fun remove_batches ::
  "instantly_service \<Rightarrow> string \<Rightarrow> string list list \<Rightarrow> nat \<Rightarrow> nat \<Rightarrow> event list
     \<Rightarrow> (error + nat \<times> nat) \<times> event list" where
  "remove_batches srv campaign_id [] t deleted_count tr = (Inr (deleted_count, t), tr)"
| "remove_batches srv campaign_id (batch # rest) t deleted_count tr =
     (case srv t (Remove_leads campaign_id batch) of
        No_response \<Rightarrow> (Inl ConnectionError, tr @ [Instantly (Remove_leads campaign_id batch) None])
      | Response status body \<Rightarrow>
          remove_batches srv campaign_id rest (Suc t)
            (if status = 200 then deleted_count + length batch else deleted_count)
            (tr @ [Instantly (Remove_leads campaign_id batch) (Some status), Sleep 1]))"

text \<open>\<^verbatim>\<open>for campaign_id in campaign_ids\<close>, over the primary and the secondary identifier.\<close>

fun delete_campaigns ::
  "nat \<Rightarrow> instantly_service \<Rightarrow> string option list \<Rightarrow> nat \<Rightarrow> nat \<Rightarrow> event list
     \<Rightarrow> (error + nat) option \<times> event list" where
  "delete_campaigns fuel srv [] t deleted_count tr = (Some (Inr deleted_count), tr)"
| "delete_campaigns fuel srv (campaign_id # rest) t deleted_count tr =
     (if \<not> truthy campaign_id then delete_campaigns fuel srv rest t deleted_count tr
      else
        (case list_filters fuel srv (get_or_empty campaign_id) filter_values t [] tr of
           (None, tr') \<Rightarrow> (None, tr')
         | (Some (Inl e), tr') \<Rightarrow> (Some (Inl e), tr')
         | (Some (Inr (emails_to_delete, t')), tr') \<Rightarrow>
             if emails_to_delete = [] then delete_campaigns fuel srv rest t' deleted_count tr'
             else
               (case remove_batches srv (get_or_empty campaign_id) (batches_of 100 emails_to_delete)
                       t' deleted_count tr' of
                  (Inl e, tr'') \<Rightarrow> (Some (Inl e), tr'')
                | (Inr (deleted_count', t''), tr'') \<Rightarrow>
                    delete_campaigns fuel srv rest t'' deleted_count' tr'')))"

definition delete_finished_leads ::
  "instantly_env \<Rightarrow> instantly_service \<Rightarrow> nat \<Rightarrow> (error + nat) option \<times> event list" where
  "delete_finished_leads env srv fuel =
     (if \<not> truthy (instantly_api_key env) then (Some (Inl Missing_credentials), [])
      else delete_campaigns fuel srv [campaign_primary_id env, campaign_secondary_id env] 0 0 [])"

text \<open>A provider whose listing is one page of five leads with no cursor, and which
  answers every other request with 200.\<close>

definition five_leads :: "string list" where
  "five_leads = [''a@x.com'', ''b@x.com'', ''c@x.com'', ''d@x.com'', ''e@x.com'']"

definition single_page_service :: instantly_service where
  "single_page_service t request =
     Response 200 (Some \<lparr>lp_data = five_leads, lp_next_starting_after = None\<rparr>)"

section \<open>main.py and logger.py: deduplication\<close>

text \<open>
  The spreadsheet behind \<^verbatim>\<open>GoogleSheetManager\<close>.  A worksheet is what
  \<^verbatim>\<open>col_values(1)\<close> returns for it, or \<open>None\<close> when that call raises; a spreadsheet maps
  a title to its worksheet, and \<^verbatim>\<open>spreadsheet.worksheet(title)\<close> raises for a title that
  it does not have.
\<close>

type_synonym worksheet = "string list option"

type_synonym spreadsheet = "string \<rightharpoonup> worksheet"

text \<open>
  The object after \<^verbatim>\<open>__init__\<close>.  An attribute is \<open>None\<close> when it was never assigned,
  so that reading it raises \<^verbatim>\<open>AttributeError\<close>.
\<close>

record sheet_manager =
  log_sheet :: worksheet
  processed_sheet :: "worksheet option"
  invalid_sheet :: "worksheet option"

text \<open>
  \<^verbatim>\<open>GoogleSheetManager.__init__\<close>.  The argument is the spreadsheet that
  \<^verbatim>\<open>client.open_by_key(sheet_id)\<close> returns, or \<open>None\<close> when the credentials or the
  opening raise.  The only attribute that the constructor assigns is
  \<^verbatim>\<open>self.log_sheet = spreadsheet.worksheet("Log")\<close>; nothing in the repository assigns
  \<^verbatim>\<open>self.processed_sheet\<close> or \<^verbatim>\<open>self.invalid_sheet\<close>.  Every exception is turned
  into \<^verbatim>\<open>Exception("Failed to initialize GoogleSheetManager: ...")\<close>.
\<close>

definition GoogleSheetManager :: "spreadsheet option \<Rightarrow> error + sheet_manager" where
  "GoogleSheetManager opened =
     (case opened of
        None \<Rightarrow> Inl Sheet_manager_init_failed
      | Some sheets \<Rightarrow>
          (case sheets ''Log'' of
             None \<Rightarrow> Inl Sheet_manager_init_failed
           | Some ws \<Rightarrow> Inr \<lparr>log_sheet = ws, processed_sheet = None, invalid_sheet = None\<rparr>))"

text \<open>
  \<^verbatim>\<open>get_processed_emails\<close>: \<^verbatim>\<open>set(self.processed_sheet.col_values(1)[1:])\<close> inside a
  \<^verbatim>\<open>try\<close> whose handler returns \<^verbatim>\<open>set()\<close> for every exception: the
  \<^verbatim>\<open>AttributeError\<close> of an attribute that was never assigned, and a failed read.
\<close>

definition get_processed_emails :: "sheet_manager \<Rightarrow> string set" where
  "get_processed_emails self =
     (case processed_sheet self of
        None \<Rightarrow> {}
      | Some ws \<Rightarrow> (case ws of None \<Rightarrow> {} | Some emails \<Rightarrow> set (drop 1 emails)))"

text \<open>
  \<^verbatim>\<open>str.lower\<close> on code points below 256: the capital letters are A to Z and the
  Latin-1 capitals (192 to 222 without the multiplication sign 215), each 32 below its
  lowercase letter; every other character is left as it is.
\<close>

definition is_upper_char :: "char \<Rightarrow> bool" where
  "is_upper_char c =
     (let n = (of_char c :: nat)
      in (65 \<le> n \<and> n \<le> 90) \<or> (192 \<le> n \<and> n \<le> 222 \<and> n \<noteq> 215))"

definition lower_char :: "char \<Rightarrow> char" where
  "lower_char c = (if is_upper_char c then char_of (of_char c + (32 :: nat)) else c)"

definition lower :: "string \<Rightarrow> string" where
  "lower s = map lower_char s"

text \<open>
  Step 3 of \<^verbatim>\<open>run_automation_flow\<close>:
  \<^verbatim>\<open>[c for c in all_apollo_contacts if c['email'] and c['email'].lower() not in processed_emails]\<close>.
\<close>

definition new_contacts :: "string set \<Rightarrow> contact list \<Rightarrow> contact list" where
  "new_contacts processed_emails all_apollo_contacts =
     filter (\<lambda>c. email c \<noteq> [] \<and> lower (email c) \<notin> processed_emails) all_apollo_contacts"

text \<open>A contact whose email is the given string, with the other fields empty.\<close>

definition contact_with_email :: "string \<Rightarrow> contact" where
  "contact_with_email e =
     \<lparr>contact_id = None, first_name = [], last_name = [], email = e,
      company = [], linkedin = [], annual_revenue = [], company_headcount = []\<rparr>"

text \<open>
  Steps 0, 1 and 3 of \<^verbatim>\<open>run_automation_flow\<close> together: the manager is built, the
  processed emails are read through it, and the fetched contacts are filtered.
\<close>

definition deduplicate :: "spreadsheet option \<Rightarrow> contact list \<Rightarrow> error + contact list" where
  "deduplicate opened all_apollo_contacts =
     (case GoogleSheetManager opened of
        Inl e \<Rightarrow> Inl e
      | Inr sheet_manager \<Rightarrow>
          Inr (new_contacts (get_processed_emails sheet_manager) all_apollo_contacts))"

text \<open>A spreadsheet with an empty log and one processed lead, \<^verbatim>\<open>a@x.com\<close>.\<close>

definition spreadsheet_example :: spreadsheet where
  "spreadsheet_example =
     [''Log'' \<mapsto> Some [], ''Processed Leads'' \<mapsto> Some [''Email'', ''a@x.com''],
      ''Invalid Leads'' \<mapsto> Some []]"

section \<open>Properties of split_contacts\<close>

lemma length_shuffle_loop: "length (shuffle_loop rnd i x) = length x"
  by (induction i arbitrary: x) (simp_all add: Let_def)

lemma length_shuffle: "length (shuffle rnd x) = length x"
  by (simp add: shuffle_def length_shuffle_loop)

lemma mset_shuffle_loop: "i < length x \<or> x = [] \<Longrightarrow> mset (shuffle_loop rnd i x) = mset x"
proof (induction i arbitrary: x)
  case 0
  show ?case by simp
next
  case (Suc i)
  let ?j = "rnd (Suc i) mod (Suc i + 1)"
  from Suc.prems have len: "Suc i < length x \<or> x = []" by simp
  show ?case
  proof (cases "x = []")
    case True
    then show ?thesis using Suc.IH [of "[]"] by (simp add: Let_def)
  next
    case False
    with len have i: "Suc i < length x" by simp
    have "?j < Suc (Suc i)" by simp
    with i have j: "?j < length x" by linarith
    have "mset (x[Suc i := x ! ?j, ?j := x ! Suc i]) = mset x"
      using i j by (simp add: mset_swap)
    moreover have "mset (shuffle_loop rnd i (x[Suc i := x ! ?j, ?j := x ! Suc i]))
        = mset (x[Suc i := x ! ?j, ?j := x ! Suc i])"
      using i by (intro Suc.IH) simp
    ultimately show ?thesis by (simp add: Let_def)
  qed
qed

lemma mset_shuffle: "mset (shuffle rnd x) = mset x"
  unfolding shuffle_def by (rule mset_shuffle_loop) (cases x; simp)

lemma mset_slices: "mset (slice_to xs k) + mset (slice_from xs k) = mset xs"
  unfolding slice_to_def slice_from_def
  by (simp flip: mset_append)

text \<open>
  Whatever the split index is, every input contact is in exactly one of the two groups:
  the two groups together are the input as a multiset.
\<close>

lemma split_contacts_partition:
  "split_contacts rnd contacts p = Inr s \<Longrightarrow>
     \<exists>a b. s = [(''campaign_a'', a), (''campaign_b'', b)] \<and> mset a + mset b = mset contacts"
  by (auto simp: split_contacts_def Let_def mset_slices mset_shuffle split: if_splits)

lemma split_index_100_29: "split_index 100 29 = 28"
  by code_simp

text \<open>
  C1.  The claim is that the primary group has exactly \<open>floor (n * p / 100)\<close> contacts.
  At \<open>n = 100\<close> and \<open>p = 29\<close> that is 29, but the binary64 quotient \<open>29 / 100\<close> lies
  below \<open>0.29\<close>, its product with \<open>100.0\<close> rounds to \<open>28.999999999999996\<close>, and
  \<^verbatim>\<open>int\<close> truncates it to 28: for every list of 100 contacts and every outcome of the
  shuffle, \<^verbatim>\<open>split_contacts\<close> puts 28 contacts in \<^verbatim>\<open>campaign_a\<close> and 72 in
  \<^verbatim>\<open>campaign_b\<close>.  The partition part of the claim holds
  (\<open>split_contacts_partition\<close>).
\<close>

theorem split_contacts_100_at_29_percent:
  assumes "length contacts = 100"
  shows "\<exists>a b. split_contacts rnd contacts 29 = Inr [(''campaign_a'', a), (''campaign_b'', b)]
           \<and> length a = 28 \<and> length b = 72 \<and> (100 * 29) div 100 = (29 :: int)
           \<and> mset a + mset b = mset contacts"
  using assms
  by (simp add: split_contacts_def split_index_100_29 slice_to_def slice_from_def Let_def
      length_shuffle mset_shuffle flip: mset_append)

theorem split_contacts_100_at_29_percent_witness:
  "length (map numbered_contact [0..<100]) = 100 \<and>
   (\<exists>a b. split_contacts (\<lambda>i. 0) (map numbered_contact [0..<100]) 29
            = Inr [(''campaign_a'', a), (''campaign_b'', b)]
      \<and> length a = 28 \<and> length b = 72)"
proof -
  have len: "length (map numbered_contact [0..<100]) = 100" by simp
  from split_contacts_100_at_29_percent [OF len, of "\<lambda>i. 0"] len show ?thesis by blast
qed

section \<open>Properties of fetch_all_contacts_from_list\<close>

lemma normalise_numbered: "normalise (numbered_raw_contact i) = numbered_contact i"
  by (simp add: normalise_def numbered_raw_contact_def numbered_contact_def organization_get_def)

lemma truthy_numbered: "truthy (raw_email (numbered_raw_contact i))"
  by (simp add: numbered_raw_contact_def)

lemma length_page_contacts:
  "\<forall>c\<in>set cs. truthy (raw_email c) \<Longrightarrow> length (page_contacts cs) = length cs"
  by (induction cs) simp_all

lemma page_contacts_emails: "c \<in> set (page_contacts cs) \<Longrightarrow> email c \<noteq> []"
  by (induction cs) (auto simp: normalise_def split: if_splits elim: truthy.elims)

lemma cap_allows_check: "cap_allows cap n \<Longrightarrow> page \<le> n \<Longrightarrow> cap_check cap page = Inr False"
  by (cases cap) auto

text \<open>
  From any state of the loop at page \<open>k + 1\<close>, on a source whose pages are all non-empty:
  the loop requests the pages \<open>k + 1\<close>, \<open>k + 2\<close>, ... in order, one request each, with
  a one-second sleep after each non-empty page, and leaves at the first empty page.
\<close>

lemma fetch_loop_paged:
  assumes "\<forall>pg\<in>set pages. pg \<noteq> []" and "cap_allows cap (Suc (length pages))"
    and "k \<le> length pages" and "length pages - k < fuel"
  shows "fetch_loop fuel cap (paged_source pages) t (Suc k) acc tr =
           (Some (Inr (acc @ concat (map page_contacts (drop k pages)))),
            tr @ concat (map (\<lambda>p. [Apollo_search 100 p, Sleep 1]) [Suc k..<Suc (length pages)])
               @ [Apollo_search 100 (Suc (length pages))])"
  using assms
proof (induction fuel arbitrary: k t acc tr)
  case 0
  then show ?case by simp
next
  case (Suc fuel)
  have chk: "cap_check cap (Suc k) = Inr False"
    using Suc.prems by (intro cap_allows_check [of cap "Suc (length pages)"]) simp_all
  show ?case
  proof (cases "k = length pages")
    case True
    have "handle_response (paged_source pages t (Suc k)) (Suc k) acc = Leave (Inr acc) []"
      using True by (simp add: paged_source_def raises_for_status_def)
    with True chk show ?thesis
      by simp
  next
    case False
    with Suc.prems have lt: "k < length pages" by simp
    then have ne: "pages ! k \<noteq> []" using Suc.prems(1) by simp
    have step: "handle_response (paged_source pages t (Suc k)) (Suc k) acc
        = Go_on (Suc (Suc k)) (acc @ page_contacts (pages ! k)) [Sleep 1]"
      using lt ne by (simp add: paged_source_def raises_for_status_def)
    have IH: "fetch_loop fuel cap (paged_source pages) (Suc t) (Suc (Suc k))
        (acc @ page_contacts (pages ! k)) (tr @ [Apollo_search 100 (Suc k), Sleep 1]) =
           (Some (Inr ((acc @ page_contacts (pages ! k)) @ concat (map page_contacts (drop (Suc k) pages)))),
            (tr @ [Apollo_search 100 (Suc k), Sleep 1]) @ concat (map (\<lambda>p. [Apollo_search 100 p, Sleep 1]) [Suc (Suc k)..<Suc (length pages)])
               @ [Apollo_search 100 (Suc (length pages))])"
      using Suc.prems lt by (intro Suc.IH) simp_all
    have d: "drop k pages = pages ! k # drop (Suc k) pages"
      using lt by (simp add: Cons_nth_drop_Suc)
    have u: "[Suc k..<Suc (length pages)] = Suc k # [Suc (Suc k)..<Suc (length pages)]"
      using lt by (simp add: upt_conv_Cons)
    show ?thesis
      using IH by (simp add: chk step d u del: upt_Suc)
  qed
qed


text \<open>The same for the whole function, from page 1 with nothing accumulated.\<close>

lemma fetch_all_paged:
  assumes "credentials_ok env" and "cap_allows (test_mode_pages env) (Suc (length pages))"
    and "\<forall>pg\<in>set pages. pg \<noteq> []" and "length pages < fuel"
  shows "fetch_all_contacts_from_list env (paged_source pages) fuel =
           (Some (Inr (concat (map page_contacts pages))),
            concat (map (\<lambda>p. [Apollo_search 100 p, Sleep 1]) [1..<Suc (length pages)])
               @ [Apollo_search 100 (Suc (length pages))])"
  using assms fetch_loop_paged [of pages "test_mode_pages env" 0 fuel 0 "[]" "[]"]
  by (simp add: fetch_all_contacts_from_list_def credentials_ok_def del: upt_Suc)

text \<open>
  C3.  With credentials set and the test-mode cap unset (or not below the number of
  requests needed), on a source whose pages \<open>1, ..., n\<close> are non-empty and whose page
  \<open>n + 1\<close> is empty, \<^verbatim>\<open>fetch_all_contacts_from_list\<close> requests the pages
  \<open>1, 2, ..., n + 1\<close> in this order, each once and each with \<^verbatim>\<open>per_page = 100\<close>,
  stops at the empty page \<open>n + 1\<close> and returns the contacts with an email of the pages
  \<open>1, ..., n\<close>.  In particular, pages of 100, 100, 37 and 0 records, all with non-empty
  emails, give exactly 4 page requests and 237 contacts.
\<close>

theorem fetch_stops_at_first_empty_page:
  assumes "credentials_ok env" and "cap_allows (test_mode_pages env) (Suc (length pages))"
    and "\<forall>pg\<in>set pages. pg \<noteq> []" and "length pages < fuel"
  shows "fetch_all_contacts_from_list env (paged_source pages) fuel =
           (Some (Inr (concat (map page_contacts pages))),
            concat (map (\<lambda>p. [Apollo_search 100 p, Sleep 1]) [1..<Suc (length pages)])
               @ [Apollo_search 100 (Suc (length pages))])
         \<and> (map length pages = [100, 100, 37] \<and> (\<forall>c\<in>set (concat pages). truthy (raw_email c))
            \<longrightarrow> (\<exists>cs. fetch_all_contacts_from_list env (paged_source pages) fuel =
                   (Some (Inr cs),
                    [Apollo_search 100 1, Sleep 1, Apollo_search 100 2, Sleep 1,
                     Apollo_search 100 3, Sleep 1, Apollo_search 100 4])
                  \<and> length cs = 237))"
proof -
  have run: "fetch_all_contacts_from_list env (paged_source pages) fuel =
           (Some (Inr (concat (map page_contacts pages))),
            concat (map (\<lambda>p. [Apollo_search 100 p, Sleep 1]) [1..<Suc (length pages)])
               @ [Apollo_search 100 (Suc (length pages))])"
    using assms by (rule fetch_all_paged)
  have inst: "\<exists>cs. fetch_all_contacts_from_list env (paged_source pages) fuel =
                   (Some (Inr cs),
                    [Apollo_search 100 1, Sleep 1, Apollo_search 100 2, Sleep 1,
                     Apollo_search 100 3, Sleep 1, Apollo_search 100 4])
                  \<and> length cs = 237"
    if len: "map length pages = [100, 100, 37]"
      and em: "\<forall>c\<in>set (concat pages). truthy (raw_email c)"
  proof -
    from len obtain p1 p2 p3 where pages: "pages = [p1, p2, p3]"
      and l: "length p1 = 100" "length p2 = 100" "length p3 = 37"
      by (auto simp: map_eq_Cons_conv)
    have "length (page_contacts p1) = 100" "length (page_contacts p2) = 100"
      "length (page_contacts p3) = 37"
      using em l by (simp_all add: pages length_page_contacts)
    then have "length (concat (map page_contacts pages)) = 237"
      by (simp add: pages)
    moreover have "[1..<Suc (length pages)] = [1, 2, 3]"
      by (simp add: pages upt_conv_Cons)
    ultimately show ?thesis
      using run by (simp add: pages del: upt_Suc)
  qed
  show ?thesis
  proof (intro conjI impI)
    show "fetch_all_contacts_from_list env (paged_source pages) fuel =
           (Some (Inr (concat (map page_contacts pages))),
            concat (map (\<lambda>p. [Apollo_search 100 p, Sleep 1]) [1..<Suc (length pages)])
               @ [Apollo_search 100 (Suc (length pages))])"
      by (rule run)
  next
    assume "map length pages = [100, 100, 37] \<and> (\<forall>c\<in>set (concat pages). truthy (raw_email c))"
    then show "\<exists>cs. fetch_all_contacts_from_list env (paged_source pages) fuel =
                   (Some (Inr cs),
                    [Apollo_search 100 1, Sleep 1, Apollo_search 100 2, Sleep 1,
                     Apollo_search 100 3, Sleep 1, Apollo_search 100 4])
                  \<and> length cs = 237"
      using inst by simp
  qed
qed

theorem fetch_stops_at_first_empty_page_witness:
  "\<exists>cs. fetch_all_contacts_from_list apollo_env_example (paged_source pages_100_100_37) 4 =
          (Some (Inr cs),
           [Apollo_search 100 1, Sleep 1, Apollo_search 100 2, Sleep 1,
            Apollo_search 100 3, Sleep 1, Apollo_search 100 4])
        \<and> length cs = 237"
proof -
  have h1: "credentials_ok apollo_env_example"
    by (simp add: credentials_ok_def apollo_env_example_def sublist_code)
  have h2: "cap_allows (test_mode_pages apollo_env_example) (Suc (length pages_100_100_37))"
    by (simp add: apollo_env_example_def)
  have h3: "\<forall>pg\<in>set pages_100_100_37. pg \<noteq> []"
    by (simp add: pages_100_100_37_def)
  have h4: "length pages_100_100_37 < 4"
    by (simp add: pages_100_100_37_def)
  have h5: "map length pages_100_100_37 = [100, 100, 37]"
    by (simp add: pages_100_100_37_def)
  have h6: "\<forall>c\<in>set (concat pages_100_100_37). truthy (raw_email c)"
    by (simp add: pages_100_100_37_def truthy_numbered)
  from fetch_stops_at_first_empty_page [OF h1 h2 h3 h4] h5 h6 show ?thesis
    by blast
qed

text \<open>The loop only ever appends to the trace.\<close>

lemma fetch_loop_trace_extends:
  "\<exists>r tr'. fetch_loop fuel cap srv t page acc tr = (r, tr @ tr')"
proof (induction fuel arbitrary: t page acc tr)
  case 0
  show ?case by simp
next
  case (Suc fuel)
  show ?case
  proof (cases "cap_check cap page")
    case (Inl e)
    then show ?thesis by simp
  next
    case (Inr b)
    show ?thesis
    proof (cases b)
      case True
      with Inr show ?thesis by simp
    next
      case False
      show ?thesis
      proof (cases "handle_response (srv t page) page acc")
        case (Leave r ev)
        with Inr False show ?thesis by simp
      next
        case (Go_on page' acc' ev)
        from Suc.IH [of "Suc t" page' acc' "tr @ Apollo_search 100 page # ev"]
        obtain r tr' where "fetch_loop fuel cap srv (Suc t) page' acc'
            (tr @ Apollo_search 100 page # ev) = (r, (tr @ Apollo_search 100 page # ev) @ tr')"
          by blast
        with Inr False Go_on show ?thesis by simp
      qed
    qed
  qed
qed

text \<open>
  C7.  In any state of the loop in which the request of \<open>page\<close> is made: if the response
  is HTTP 429, the loop sleeps 900 seconds and goes on with the same page number and the
  same accumulated contacts (nothing is added by the failed attempt), and the next request
  is for the same page again; if the response is any other 4xx or 5xx status, the fetch
  raises.
\<close>

theorem rate_limit_retries_same_page:
  assumes "cap_check cap page = Inr False"
  shows "(srv t page = Response 429 body \<longrightarrow>
            fetch_loop (Suc fuel) cap srv t page acc tr =
              fetch_loop fuel cap srv (Suc t) page acc (tr @ [Apollo_search 100 page, Sleep 900])
            \<and> (\<exists>r tr'. fetch_loop (Suc (Suc fuel)) cap srv t page acc tr =
                  (r, tr @ [Apollo_search 100 page, Sleep 900, Apollo_search 100 page] @ tr')))
       \<and> (srv t page = Response status body \<and> raises_for_status status \<and> status \<noteq> 429 \<longrightarrow>
            fetch_loop (Suc fuel) cap srv t page acc tr =
              (Some (Inl (Http_error_on_page status page)), tr @ [Apollo_search 100 page]))"
proof (intro conjI impI)
  assume r: "srv t page = Response 429 body"
  then have h: "handle_response (srv t page) page acc = Go_on page acc [Sleep 900]"
    by (simp add: raises_for_status_def)
  show one: "fetch_loop (Suc fuel) cap srv t page acc tr =
      fetch_loop fuel cap srv (Suc t) page acc (tr @ [Apollo_search 100 page, Sleep 900])"
    for fuel
    using assms h by simp
  obtain r' tr' where next_run: "fetch_loop fuel cap srv (Suc (Suc t))
      (case handle_response (srv (Suc t) page) page acc of Leave _ _ \<Rightarrow> page | Go_on p _ _ \<Rightarrow> p)
      (case handle_response (srv (Suc t) page) page acc of Leave _ _ \<Rightarrow> acc | Go_on _ a _ \<Rightarrow> a)
      ((tr @ [Apollo_search 100 page, Sleep 900]) @ Apollo_search 100 page #
        (case handle_response (srv (Suc t) page) page acc of Leave _ ev \<Rightarrow> ev | Go_on _ _ ev \<Rightarrow> ev))
      = (r', ((tr @ [Apollo_search 100 page, Sleep 900]) @ Apollo_search 100 page #
        (case handle_response (srv (Suc t) page) page acc of Leave _ ev \<Rightarrow> ev | Go_on _ _ ev \<Rightarrow> ev)) @ tr')"
    using fetch_loop_trace_extends by blast
  have two: "fetch_loop (Suc (Suc fuel)) cap srv t page acc tr =
      fetch_loop (Suc fuel) cap srv (Suc t) page acc (tr @ [Apollo_search 100 page, Sleep 900])"
    by (rule one)
  show "\<exists>r tr'. fetch_loop (Suc (Suc fuel)) cap srv t page acc tr =
      (r, tr @ [Apollo_search 100 page, Sleep 900, Apollo_search 100 page] @ tr')"
  proof (cases "handle_response (srv (Suc t) page) page acc")
    case (Leave r ev)
    then show ?thesis unfolding two using assms by simp
  next
    case (Go_on p a ev)
    then show ?thesis unfolding two using assms next_run by simp
  qed
next
  assume "srv t page = Response status body \<and> raises_for_status status \<and> status \<noteq> 429"
  then show "fetch_loop (Suc fuel) cap srv t page acc tr =
      (Some (Inl (Http_error_on_page status page)), tr @ [Apollo_search 100 page])"
    using assms by simp
qed

theorem rate_limit_retries_same_page_witness:
  "fetch_loop (Suc (Suc (Suc 0))) Cap_unset
      (rate_limited_source 2 [[numbered_raw_contact 0], [numbered_raw_contact 1], [numbered_raw_contact 2]])
      2 3 [numbered_contact 0, numbered_contact 1]
      [Apollo_search 100 1, Sleep 1, Apollo_search 100 2, Sleep 1]
    = (Some (Inr [numbered_contact 0, numbered_contact 1, numbered_contact 2]),
       [Apollo_search 100 1, Sleep 1, Apollo_search 100 2, Sleep 1,
        Apollo_search 100 3, Sleep 900, Apollo_search 100 3, Sleep 1, Apollo_search 100 4])
   \<and> fetch_loop (Suc 0) Cap_unset (\<lambda>t p. Response 503 None) 0 1 [] []
     = (Some (Inl (Http_error_on_page 503 1)), [Apollo_search 100 1])
   \<and> fetch_all_contacts_from_list apollo_env_example
       (rate_limited_source 2 [[numbered_raw_contact 0], [numbered_raw_contact 1], [numbered_raw_contact 2]])
       (Suc (Suc (Suc (Suc (Suc 0)))))
     = (Some (Inr [numbered_contact 0, numbered_contact 1, numbered_contact 2]),
        [Apollo_search 100 1, Sleep 1, Apollo_search 100 2, Sleep 1,
         Apollo_search 100 3, Sleep 900, Apollo_search 100 3, Sleep 1, Apollo_search 100 4])"
proof -
  have c3: "cap_check Cap_unset 3 = Inr False" and c1: "cap_check Cap_unset 1 = Inr False"
    by simp_all
  note a = rate_limit_retries_same_page [OF c3,
      where srv = "rate_limited_source 2 [[numbered_raw_contact 0], [numbered_raw_contact 1], [numbered_raw_contact 2]]"
        and t = 2 and body = None and fuel = "Suc (Suc 0)" and acc = "[numbered_contact 0, numbered_contact 1]"
        and tr = "[Apollo_search 100 1, Sleep 1, Apollo_search 100 2, Sleep 1]"]
  note b = rate_limit_retries_same_page [OF c1,
      where srv = "\<lambda>t p. Response 503 None" and t = 0 and body = None and status = 503
        and fuel = 0 and acc = "[]" and tr = "[]"]
  have r: "rate_limited_source 2 [[numbered_raw_contact 0], [numbered_raw_contact 1], [numbered_raw_contact 2]] 2 3
      = Response 429 None"
    by (simp add: rate_limited_source_def)
  have rest: "fetch_loop (Suc (Suc 0)) Cap_unset
      (rate_limited_source 2 [[numbered_raw_contact 0], [numbered_raw_contact 1], [numbered_raw_contact 2]])
      (Suc 2) 3 [numbered_contact 0, numbered_contact 1]
      ([Apollo_search 100 1, Sleep 1, Apollo_search 100 2, Sleep 1] @ [Apollo_search 100 3, Sleep 900])
    = (Some (Inr [numbered_contact 0, numbered_contact 1, numbered_contact 2]),
       [Apollo_search 100 1, Sleep 1, Apollo_search 100 2, Sleep 1,
        Apollo_search 100 3, Sleep 900, Apollo_search 100 3, Sleep 1, Apollo_search 100 4])"
    by (simp add: rate_limited_source_def paged_source_def
        raises_for_status_def normalise_numbered truthy_numbered)
  have s: "raises_for_status 503" by (simp add: raises_for_status_def)
  from a r rest have first: "fetch_loop (Suc (Suc (Suc 0))) Cap_unset
      (rate_limited_source 2 [[numbered_raw_contact 0], [numbered_raw_contact 1], [numbered_raw_contact 2]])
      2 3 [numbered_contact 0, numbered_contact 1]
      [Apollo_search 100 1, Sleep 1, Apollo_search 100 2, Sleep 1]
    = (Some (Inr [numbered_contact 0, numbered_contact 1, numbered_contact 2]),
       [Apollo_search 100 1, Sleep 1, Apollo_search 100 2, Sleep 1,
        Apollo_search 100 3, Sleep 900, Apollo_search 100 3, Sleep 1, Apollo_search 100 4])"
    by presburger
  from b s have second: "fetch_loop (Suc 0) Cap_unset (\<lambda>t p. Response 503 None) 0 1 [] []
     = (Some (Inl (Http_error_on_page 503 1)), [Apollo_search 100 1])"
    by simp
  have whole: "fetch_all_contacts_from_list apollo_env_example
       (rate_limited_source 2 [[numbered_raw_contact 0], [numbered_raw_contact 1], [numbered_raw_contact 2]])
       (Suc (Suc (Suc (Suc (Suc 0)))))
     = (Some (Inr [numbered_contact 0, numbered_contact 1, numbered_contact 2]),
        [Apollo_search 100 1, Sleep 1, Apollo_search 100 2, Sleep 1,
         Apollo_search 100 3, Sleep 900, Apollo_search 100 3, Sleep 1, Apollo_search 100 4])"
    by (simp add: fetch_all_contacts_from_list_def apollo_env_example_def sublist_code
        rate_limited_source_def paged_source_def raises_for_status_def normalise_numbered
        truthy_numbered)
  from first second whole show ?thesis by (intro conjI)
qed

section \<open>Properties of verify_emails\<close>

lemma batches_of_Nil [simp]: "batches_of n [] = []"
  by (simp add: batches_of.simps)

lemma batches_of_Cons:
  "0 < n \<Longrightarrow> batches_of n (x # xs) = take n (x # xs) # batches_of n (drop n (x # xs))"
  by (subst batches_of.simps) simp

lemma concat_batches_of: "0 < n \<Longrightarrow> concat (batches_of n xs) = xs"
proof (induction n xs rule: batches_of.induct)
  case (1 n xs)
  show ?case
  proof (cases "xs = []")
    case True
    then show ?thesis by simp
  next
    case False
    with 1 show ?thesis by (subst batches_of.simps) simp
  qed
qed

lemma dom_contact_map: "dom (contact_map contacts) = email ` set contacts"
  by (simp add: contact_map_def dom_map_of_conv_image_fst image_image)

lemma contact_map_Some: "contact_map contacts e = Some c \<Longrightarrow> c \<in> set contacts \<and> email c = e"
  by (auto simp: contact_map_def dest!: map_of_SomeD)

text \<open>
  When the loop over one result set ends without \<^verbatim>\<open>KeyError\<close>, the entries with both
  flags set have gone to \<^verbatim>\<open>valid_contacts\<close> and all the others to
  \<^verbatim>\<open>invalid_contacts\<close>, in order, and every key was a key of \<^verbatim>\<open>contact_map\<close>.
\<close>

lemma process_results_Inr:
  "process_results cm rs va iv = Inr (va', iv') \<Longrightarrow>
     va' = va @ map (\<lambda>(e, v). the (cm e)) (filter (\<lambda>(e, v). is_safe_to_send v \<and> is_deliverable v) rs)
     \<and> iv' = iv @ map (\<lambda>(e, v). invalid_record e v)
                (filter (\<lambda>(e, v). \<not> (is_safe_to_send v \<and> is_deliverable v)) rs)
     \<and> fst ` set rs \<subseteq> dom cm"
proof (induction rs arbitrary: va iv)
  case Nil
  then show ?case by simp
next
  case (Cons r rs)
  obtain e v where r: "r = (e, v)" by (cases r)
  from Cons.prems obtain c where c: "cm e = Some c"
    by (auto simp: r split: option.splits)
  show ?case
  proof (cases "is_safe_to_send v \<and> is_deliverable v")
    case True
    with Cons.prems c have "process_results cm rs (va @ [c]) iv = Inr (va', iv')"
      by (simp add: r)
    from Cons.IH [OF this] True c show ?thesis by (auto simp: r)
  next
    case False
    with Cons.prems c have "process_results cm rs va (iv @ [invalid_record e v]) = Inr (va', iv')"
      by (auto simp: r)
    from Cons.IH [OF this] False c show ?thesis by (auto simp: r)
  qed
qed

lemma process_results_KeyError:
  "cm e = None \<Longrightarrow> fst ` set pre \<subseteq> dom cm \<Longrightarrow>
     process_results cm (pre @ (e, v) # post) va iv = Inl (Verification_failed (KeyError e))"
proof (induction pre arbitrary: va iv)
  case Nil
  then show ?case by simp
next
  case (Cons r pre)
  obtain e' v' where r: "r = (e', v')" by (cases r)
  from Cons.prems obtain c where "cm e' = Some c" by (auto simp: r)
  with Cons show ?case by (simp add: r)
qed

lemma verify_batch_Inr:
  assumes "verify_batch srv cm b batch va iv = (Inr (va', iv'), ev)"
  shows "\<exists>rs tr. poll_task (get_result srv b) b 0 18 = (Inr rs, tr)
           \<and> process_results cm rs va iv = Inr (va', iv')"
  using assms
  by (auto simp: verify_batch_def split: response.splits if_splits option.splits prod.splits sum.splits)

text \<open>The same over all the batches, for the result sets of their completed tasks.\<close>

lemma verify_batches_Inr:
  "verify_batches srv cm b bs va iv tr = (Inr (va', iv'), tr') \<Longrightarrow>
     va' = va @ map (\<lambda>(e, v). the (cm e))
                  (filter (\<lambda>(e, v). is_safe_to_send v \<and> is_deliverable v) (returned_results srv b (length bs)))
     \<and> iv' = iv @ map (\<lambda>(e, v). invalid_record e v)
                (filter (\<lambda>(e, v). \<not> (is_safe_to_send v \<and> is_deliverable v)) (returned_results srv b (length bs)))
     \<and> fst ` set (returned_results srv b (length bs)) \<subseteq> dom cm
     \<and> (\<forall>k. b \<le> k \<and> k < b + length bs \<longrightarrow> (\<exists>rs tr. poll_task (get_result srv k) k 0 18 = (Inr rs, tr)))"
proof (induction bs arbitrary: b va iv tr)
  case Nil
  then show ?case by (auto simp: returned_results_def)
next
  case (Cons batch rest)
  from Cons.prems obtain va1 iv1 ev where
    step: "verify_batch srv cm b batch va iv = (Inr (va1, iv1), ev)"
    and rest: "verify_batches srv cm (Suc b) rest va1 iv1 (tr @ ev @ [Sleep 2]) = (Inr (va', iv'), tr')"
    by (auto split: prod.splits sum.splits)
  from verify_batch_Inr [OF step] obtain rs ptr where
    poll: "poll_task (get_result srv b) b 0 18 = (Inr rs, ptr)"
    and proc: "process_results cm rs va iv = Inr (va1, iv1)" by blast
  have tr: "task_result srv b = rs" by (simp add: task_result_def poll)
  have ret: "returned_results srv b (length (batch # rest)) = rs @ returned_results srv (Suc b) (length rest)"
    by (simp add: returned_results_def upt_conv_Cons tr del: upt_Suc)
  note A = process_results_Inr [OF proc]
  note B = Cons.IH [OF rest]
  have polls: "\<exists>rs tr. poll_task (get_result srv k) k 0 18 = (Inr rs, tr)"
    if "b \<le> k" "k < b + length (batch # rest)" for k
  proof (cases "k = b")
    case True
    with poll show ?thesis by blast
  next
    case False
    with that have "Suc b \<le> k \<and> k < Suc b + length rest" by simp
    with B show ?thesis by blast
  qed
  from A B polls show ?case
    unfolding ret by auto
qed

lemma verify_emails_Inr:
  assumes "verify_emails api_key srv contacts = (Inr (valid, invalid), tr)"
  shows "verify_batches srv (contact_map contacts) 0 (batches_of 100 (map email contacts)) [] [] []
           = (Inr (valid, invalid), tr) \<and> contacts \<noteq> [] \<and> truthy api_key"
  using assms
  by (auto simp: verify_emails_def split: if_splits prod.splits sum.splits)

lemma emails_of_looked_up:
  "fst ` set rs \<subseteq> dom (contact_map contacts) \<Longrightarrow>
     map email (map (\<lambda>(e, v). the (contact_map contacts e)) rs) = map fst rs
     \<and> set (map (\<lambda>(e, v). the (contact_map contacts e)) rs) \<subseteq> set contacts"
proof (induction rs)
  case Nil
  show ?case by simp
next
  case (Cons r rs)
  obtain e v where r: "r = (e, v)" by (cases r)
  from Cons.prems obtain c where c: "contact_map contacts e = Some c" by (auto simp: r)
  from contact_map_Some [OF c] Cons c show ?case by (simp add: r)
qed

lemma inv_email_record: "inv_email (invalid_record e v) = e"
  by (simp add: invalid_record_def Let_def)

lemma inv_email_invalid_record: "map inv_email (map (\<lambda>(e, v). invalid_record e v) rs) = map fst rs"
  by (induction rs) (auto simp: inv_email_record)

lemma filter_split_length:
  "length (filter P rs) + length (filter (\<lambda>x. \<not> P x) rs) = length rs"
  by (induction rs) auto

lemma distinct_key_member:
  assumes "distinct (map fst rs)" and "(e, v) \<in> set rs"
  shows "e \<in> set (map fst (filter P rs)) \<longleftrightarrow> P (e, v)"
proof
  assume "e \<in> set (map fst (filter P rs))"
  then obtain v' where m: "(e, v') \<in> set rs" and p: "P (e, v')" by auto
  from assms m have "v' = v" by (meson eq_key_imp_eq_value)
  with p show "P (e, v)" by simp
next
  assume "P (e, v)"
  with assms(2) have "(e, v) \<in> set (filter P rs)" by simp
  then show "e \<in> set (map fst (filter P rs))" by force
qed

lemma map_filter_concat:
  "map f (filter P (concat xss)) = concat (map (\<lambda>xs. map f (filter P xs)) xss)"
  by (induction xss) simp_all

lemma task_result_keys:
  assumes "fst ` set (returned_results srv 0 n) \<subseteq> D" and "b < n"
  shows "fst ` set (task_result srv b) \<subseteq> D"
proof
  fix e assume "e \<in> fst ` set (task_result srv b)"
  then obtain v where "(e, v) \<in> set (task_result srv b)" by auto
  with assms(2) have "(e, v) \<in> set (returned_results srv 0 n)"
    by (auto simp: returned_results_def intro!: bexI [of _ b])
  with assms(1) show "e \<in> D" by force
qed

text \<open>
  C4, amended.  When \<^verbatim>\<open>verify_emails\<close> returns, the valid and the invalid list are made
  of one segment for each batch, in order.  The segment that the completed task of a
  batch adds to the valid list holds the contacts of exactly its returned entries whose
  \<^verbatim>\<open>is_safe_to_send\<close> and \<^verbatim>\<open>is_deliverable\<close> flags are both true; the segment that it
  adds to the invalid list holds, for exactly the other entries, the record with the
  email, the reason (the \<^verbatim>\<open>status\<close> of the entry, \<^verbatim>\<open>unknown\<close> without one) and the
  details \<^verbatim>\<open>Score: <overall_score>, Status: <reason>\<close>.  The two segments together have
  one element for each returned entry, and as the returned emails of a task are distinct
  (they are the keys of a dict), a returned email is in the valid segment of its task if
  and only if both its flags are true, and in the invalid segment if and only if not.  The
  whole lists are disjoint in this way when no email is returned by two tasks.
\<close>

theorem verification_partition:
  assumes ok: "verify_emails api_key srv contacts = (Inr (valid, invalid), tr)"
    and n: "n = length (batches_of 100 (map email contacts))"
  shows "\<exists>vs ivs.
           valid = concat vs \<and> invalid = concat ivs \<and> length vs = n \<and> length ivs = n
           \<and> set valid \<subseteq> set contacts
           \<and> (\<forall>b<n.
                map email (vs ! b)
                  = map fst (filter (\<lambda>(e, v). is_safe_to_send v \<and> is_deliverable v) (task_result srv b))
                \<and> ivs ! b
                  = map (\<lambda>(e, v).
                           \<lparr>inv_email = e,
                            inv_reason = (case v_status v of None \<Rightarrow> ''unknown'' | Some s \<Rightarrow> s),
                            inv_details =
                              ''Score: '' @ (case overall_score v of None \<Rightarrow> ''None'' | Some s \<Rightarrow> s)
                                @ '', Status: ''
                                @ (case v_status v of None \<Rightarrow> ''unknown'' | Some s \<Rightarrow> s)\<rparr>)
                      (filter (\<lambda>(e, v). \<not> (is_safe_to_send v \<and> is_deliverable v)) (task_result srv b))
                \<and> length (vs ! b) + length (ivs ! b) = length (task_result srv b)
                \<and> (distinct (map fst (task_result srv b)) \<longrightarrow>
                     (\<forall>(e, v)\<in>set (task_result srv b).
                        (e \<in> set (map email (vs ! b))) = (is_safe_to_send v \<and> is_deliverable v)
                        \<and> (e \<in> set (map inv_email (ivs ! b)))
                            = (\<not> (is_safe_to_send v \<and> is_deliverable v)))))
           \<and> (distinct (map fst (returned_results srv 0 n)) \<longrightarrow>
                (\<forall>(e, v)\<in>set (returned_results srv 0 n).
                   (e \<in> set (map email valid)) = (is_safe_to_send v \<and> is_deliverable v)
                   \<and> (e \<in> set (map inv_email invalid)) = (\<not> (is_safe_to_send v \<and> is_deliverable v))))"
proof -
  let ?P = "\<lambda>(e, v). is_safe_to_send v \<and> is_deliverable v"
  let ?N = "\<lambda>(e, v). \<not> (is_safe_to_send v \<and> is_deliverable v)"
  let ?cm = "contact_map contacts"
  let ?look = "\<lambda>(e :: string, v :: verification). the (?cm e)"
  let ?rec = "\<lambda>(e, v). invalid_record e v"
  let ?rs = "returned_results srv 0 n"
  let ?vs = "map (\<lambda>b. map ?look (filter ?P (task_result srv b))) [0..<n]"
  let ?ivs = "map (\<lambda>b. map ?rec (filter ?N (task_result srv b))) [0..<n]"
  from verify_emails_Inr [OF ok] have
    "verify_batches srv ?cm 0 (batches_of 100 (map email contacts)) [] [] [] = (Inr (valid, invalid), tr)"
    by simp
  from verify_batches_Inr [OF this] have
    v: "valid = map ?look (filter ?P ?rs)"
    and i: "invalid = map ?rec (filter ?N ?rs)"
    and d: "fst ` set ?rs \<subseteq> dom ?cm"
    by (simp_all add: n)
  have rs: "?rs = concat (map (task_result srv) [0..<n])"
    by (simp add: returned_results_def)
  have cv: "valid = concat ?vs"
    unfolding v rs map_filter_concat by (simp add: comp_def)
  have ci: "invalid = concat ?ivs"
    unfolding i rs map_filter_concat by (simp add: comp_def)
  from d have "fst ` set (filter ?P ?rs) \<subseteq> dom ?cm" by auto
  from emails_of_looked_up [OF this] have
    ve: "map email valid = map fst (filter ?P ?rs)" and vsub: "set valid \<subseteq> set contacts"
    by (simp_all add: v)
  have ie: "map inv_email invalid = map fst (filter ?N ?rs)"
    unfolding i by (rule inv_email_invalid_record)
  have N: "?N = (\<lambda>x. \<not> ?P x)" by auto
  have rec: "?rec = (\<lambda>(e, v).
                           \<lparr>inv_email = e,
                            inv_reason = (case v_status v of None \<Rightarrow> ''unknown'' | Some s \<Rightarrow> s),
                            inv_details =
                              ''Score: '' @ (case overall_score v of None \<Rightarrow> ''None'' | Some s \<Rightarrow> s)
                                @ '', Status: ''
                                @ (case v_status v of None \<Rightarrow> ''unknown'' | Some s \<Rightarrow> s)\<rparr>)"
    by (simp add: invalid_record_def Let_def fun_eq_iff)
  have per_batch:
    "map email (?vs ! b) = map fst (filter ?P (task_result srv b))
     \<and> ?ivs ! b = map (\<lambda>(e, v).
                           \<lparr>inv_email = e,
                            inv_reason = (case v_status v of None \<Rightarrow> ''unknown'' | Some s \<Rightarrow> s),
                            inv_details =
                              ''Score: '' @ (case overall_score v of None \<Rightarrow> ''None'' | Some s \<Rightarrow> s)
                                @ '', Status: ''
                                @ (case v_status v of None \<Rightarrow> ''unknown'' | Some s \<Rightarrow> s)\<rparr>)
                      (filter ?N (task_result srv b))
     \<and> length (?vs ! b) + length (?ivs ! b) = length (task_result srv b)
     \<and> (distinct (map fst (task_result srv b)) \<longrightarrow>
           (\<forall>(e, v)\<in>set (task_result srv b).
              (e \<in> set (map email (?vs ! b))) = (is_safe_to_send v \<and> is_deliverable v)
              \<and> (e \<in> set (map inv_email (?ivs ! b))) = (\<not> (is_safe_to_send v \<and> is_deliverable v))))"
    if b: "b < n" for b
  proof -
    let ?t = "task_result srv b"
    have vb: "?vs ! b = map ?look (filter ?P ?t)" and ib: "?ivs ! b = map ?rec (filter ?N ?t)"
      using b by simp_all
    from task_result_keys [OF d b] have "fst ` set (filter ?P ?t) \<subseteq> dom ?cm" by auto
    from emails_of_looked_up [OF this] have e1: "map email (?vs ! b) = map fst (filter ?P ?t)"
      unfolding vb by simp
    have e2: "map inv_email (?ivs ! b) = map fst (filter ?N ?t)"
      unfolding ib by (rule inv_email_invalid_record)
    have "length (filter ?P ?t) + length (filter ?N ?t) = length ?t"
      unfolding N by (rule filter_split_length)
    then have e3: "length (?vs ! b) + length (?ivs ! b) = length ?t"
      using b by simp
    have e4: "(e \<in> set (map email (?vs ! b))) = (is_safe_to_send v \<and> is_deliverable v)
          \<and> (e \<in> set (map inv_email (?ivs ! b))) = (\<not> (is_safe_to_send v \<and> is_deliverable v))"
      if "distinct (map fst ?t)" "(e, v) \<in> set ?t" for e v
      using distinct_key_member [OF that, of ?P] distinct_key_member [OF that, of ?N]
      unfolding e1 e2 by simp
    have e5: "?ivs ! b = map (\<lambda>(e, v).
                           \<lparr>inv_email = e,
                            inv_reason = (case v_status v of None \<Rightarrow> ''unknown'' | Some s \<Rightarrow> s),
                            inv_details =
                              ''Score: '' @ (case overall_score v of None \<Rightarrow> ''None'' | Some s \<Rightarrow> s)
                                @ '', Status: ''
                                @ (case v_status v of None \<Rightarrow> ''unknown'' | Some s \<Rightarrow> s)\<rparr>)
                      (filter ?N ?t)"
      using b by (simp add: rec)
    from e1 e5 e3 e4 show ?thesis by blast
  qed
  have global: "(e \<in> set (map email valid)) = (is_safe_to_send v \<and> is_deliverable v)
          \<and> (e \<in> set (map inv_email invalid)) = (\<not> (is_safe_to_send v \<and> is_deliverable v))"
    if "distinct (map fst ?rs)" "(e, v) \<in> set ?rs" for e v
    using distinct_key_member [OF that, of ?P] distinct_key_member [OF that, of ?N]
    unfolding ve ie by simp
  have len: "length ?vs = n" "length ?ivs = n" by simp_all
  show ?thesis
    apply (rule exI [of _ ?vs])
    apply (rule exI [of _ ?ivs])
    using cv ci len vsub per_batch global
    apply blast
    done
qed

lemma numbered_contact_email_eq:
  "email (numbered_contact i) = email (numbered_contact j) \<longleftrightarrow> i = j"
proof
  assume "email (numbered_contact i) = email (numbered_contact j)"
  then have "length (email (numbered_contact i)) = length (email (numbered_contact j))" by simp
  then show "i = j" by (simp add: numbered_contact_def)
qed simp

lemma batches_of_single: "xs \<noteq> [] \<Longrightarrow> length xs \<le> n \<Longrightarrow> batches_of n xs = [xs]"
  by (subst batches_of.simps) (cases n; simp)

lemma poll_task_completed_first:
  "get a = Response status (Some d) \<Longrightarrow> \<not> raises_for_status status \<Longrightarrow>
     task_status d = Some ''completed'' \<Longrightarrow> 0 < n \<Longrightarrow>
     poll_task get b a n = (Inr (task_results d), [Sleep 10, Reoon_poll b a])"
  by (cases n) simp_all

theorem verification_partition_witness:
  "verify_emails (Some ''key'')
      (prompt_service [(email (numbered_contact 0), verdict True True),
                       (email (numbered_contact 2), verdict True False)])
      [numbered_contact 0, numbered_contact 2]
    = (Inr ([numbered_contact 0], [invalid_record (email (numbered_contact 2)) (verdict True False)]),
       [Reoon_create [email (numbered_contact 0), email (numbered_contact 2)],
        Sleep 10, Reoon_poll 0 0, Sleep 2])
   \<and> (\<exists>vs ivs. [numbered_contact 0] = concat vs
         \<and> [invalid_record (email (numbered_contact 2)) (verdict True False)] = concat ivs
         \<and> length vs = 1 \<and> length ivs = 1)
   \<and> (email (numbered_contact 2) \<in> set (map email [numbered_contact 0]))
       = (is_safe_to_send (verdict True False) \<and> is_deliverable (verdict True False))
   \<and> (email (numbered_contact 2)
        \<in> set (map inv_email [invalid_record (email (numbered_contact 2)) (verdict True False)]))
       = (\<not> (is_safe_to_send (verdict True False) \<and> is_deliverable (verdict True False)))"
proof -
  let ?rs = "[(email (numbered_contact 0), verdict True True),
              (email (numbered_contact 2), verdict True False)]"
  have b: "batches_of 100 [email (numbered_contact 0), email (numbered_contact 2)]
      = [[email (numbered_contact 0), email (numbered_contact 2)]]"
    by (simp add: batches_of_single)
  have ne: "email (numbered_contact 2) \<noteq> email (numbered_contact 0)"
    by (simp add: numbered_contact_email_eq)
  have poll: "poll_task (get_result (prompt_service ?rs) 0) 0 0 18 = (Inr ?rs, [Sleep 10, Reoon_poll 0 0])"
    using poll_task_completed_first [of "get_result (prompt_service ?rs) 0" 0 200
        "\<lparr>task_status = Some ''completed'', task_results = ?rs\<rparr>" 18 0]
    by (simp add: prompt_service_def raises_for_status_def)
  have cr: "create_task (prompt_service ?rs) 0 [email (numbered_contact 0), email (numbered_contact 2)]
      = Response 200 (Some (Some ''task''))"
    by (simp add: prompt_service_def)
  have pr: "process_results (contact_map [numbered_contact 0, numbered_contact 2]) ?rs [] []
      = Inr ([numbered_contact 0], [invalid_record (email (numbered_contact 2)) (verdict True False)])"
    by (simp add: contact_map_def verdict_def numbered_contact_email_eq)
  have vb: "verify_batch (prompt_service ?rs) (contact_map [numbered_contact 0, numbered_contact 2]) 0
        [email (numbered_contact 0), email (numbered_contact 2)] [] []
      = (Inr ([numbered_contact 0], [invalid_record (email (numbered_contact 2)) (verdict True False)]),
         [Reoon_create [email (numbered_contact 0), email (numbered_contact 2)],
          Sleep 10, Reoon_poll 0 0])"
    by (simp add: verify_batch_def cr poll raises_for_status_def del: process_results.simps)
       (simp only: pr)
  have run: "verify_emails (Some ''key'') (prompt_service ?rs) [numbered_contact 0, numbered_contact 2]
      = (Inr ([numbered_contact 0], [invalid_record (email (numbered_contact 2)) (verdict True False)]),
         [Reoon_create [email (numbered_contact 0), email (numbered_contact 2)],
          Sleep 10, Reoon_poll 0 0, Sleep 2])"
    by (simp add: verify_emails_def b vb)
  have n: "1 = length (batches_of 100 (map email [numbered_contact 0, numbered_contact 2]))"
    by (simp add: b)
  have rs: "returned_results (prompt_service ?rs) 0 1 = ?rs"
    by (simp add: returned_results_def task_result_def poll)
  have dist: "distinct (map fst (returned_results (prompt_service ?rs) 0 1))"
    unfolding rs using ne by simp
  have mem: "(email (numbered_contact 2), verdict True False)
      \<in> set (returned_results (prompt_service ?rs) 0 1)"
    unfolding rs by simp
  from verification_partition [OF run n] dist mem
  have "(email (numbered_contact 2) \<in> set (map email [numbered_contact 0]))
       = (is_safe_to_send (verdict True False) \<and> is_deliverable (verdict True False))
   \<and> (email (numbered_contact 2)
        \<in> set (map inv_email [invalid_record (email (numbered_contact 2)) (verdict True False)]))
       = (\<not> (is_safe_to_send (verdict True False) \<and> is_deliverable (verdict True False)))"
    by blast
  moreover from verification_partition [OF run n]
  have "\<exists>vs ivs. [numbered_contact 0] = concat vs
         \<and> [invalid_record (email (numbered_contact 2)) (verdict True False)] = concat ivs
         \<and> length vs = 1 \<and> length ivs = 1"
    by blast
  ultimately show ?thesis using run by blast
qed

lemma batches_of_two:
  assumes "n < length xs" and "length xs \<le> 2 * n"
  shows "batches_of n xs = [take n xs, drop n xs]"
proof -
  from assms have "0 < n" "xs \<noteq> []" by auto
  then have "batches_of n xs = take n xs # batches_of n (drop n xs)"
    by (subst batches_of.simps) simp
  moreover from assms have "batches_of n (drop n xs) = [drop n xs]"
    by (intro batches_of_single) auto
  ultimately show ?thesis by simp
qed

lemma contact_map_distinct:
  assumes "distinct (map email contacts)" and "c \<in> set contacts"
  shows "contact_map contacts (email c) = Some c"
proof -
  have "map fst (rev (map (\<lambda>c. (email c, c)) contacts)) = rev (map email contacts)"
    by (induction contacts) simp_all
  with assms(1) have "distinct (map fst (rev (map (\<lambda>c. (email c, c)) contacts)))"
    by simp
  moreover from assms(2) have "(email c, c) \<in> set (rev (map (\<lambda>c. (email c, c)) contacts))"
    by auto
  ultimately show ?thesis
    unfolding contact_map_def by (simp only: map_of_eq_Some_iff)
qed

lemma distinct_numbered_emails: "distinct (map email (map numbered_contact [i..<j]))"
  by (simp add: distinct_map inj_on_def numbered_contact_email_eq comp_def)

lemma contact_map_last: "contact_map (contacts @ [c]) (email c) = Some c"
  by (simp add: contact_map_def)

text \<open>
  C4, as stated, fails for the lists as a whole.  Take 101 contacts of which the last has
  the email of the first, so that this email is submitted in both batches, and a service
  whose first task returns it as deliverable and whose second task returns it as not
  deliverable: \<^verbatim>\<open>verify_emails\<close> returns normally with this email both in the valid and
  in the invalid list, although in the result set of the second task its flags are not
  both true.
\<close>

theorem verification_same_email_in_both_lists:
  "(\<exists>tr. verify_emails (Some ''key'') (changing_service (email (numbered_contact 0)))
            (map numbered_contact [0..<100] @ [numbered_contact 0])
          = (Inr ([numbered_contact 0],
                  [invalid_record (email (numbered_contact 0)) (verdict True False)]), tr))
   \<and> batches_of 100 (map email (map numbered_contact [0..<100] @ [numbered_contact 0]))
       = [map email (map numbered_contact [0..<100]), [email (numbered_contact 0)]]
   \<and> task_result (changing_service (email (numbered_contact 0))) 0
       = [(email (numbered_contact 0), verdict True True)]
   \<and> task_result (changing_service (email (numbered_contact 0))) 1
       = [(email (numbered_contact 0), verdict True False)]
   \<and> email (numbered_contact 0) \<in> set (map email [numbered_contact 0])
   \<and> email (numbered_contact 0)
       \<in> set (map inv_email [invalid_record (email (numbered_contact 0)) (verdict True False)])"
proof -
  let ?e = "email (numbered_contact 0)"
  let ?srv = "changing_service ?e"
  let ?cs = "map numbered_contact [0..<100] @ [numbered_contact 0]"
  let ?cm = "contact_map ?cs"
  let ?b0 = "map email (map numbered_contact [0..<100])" and ?b1 = "[?e]"
  have "batches_of 100 (map email ?cs) = [take 100 (map email ?cs), drop 100 (map email ?cs)]"
    by (rule batches_of_two) simp_all
  then have bs: "batches_of 100 (map email ?cs) = [?b0, ?b1]"
    by (simp del: upt_Suc upt_rec_numeral)
  have cm: "?cm ?e = Some (numbered_contact 0)"
    by (rule contact_map_last)
  have poll: "poll_task (get_result ?srv b) b 0 18
      = (Inr [(?e, verdict True (b = 0))], [Sleep 10, Reoon_poll b 0])" for b
    using poll_task_completed_first [of "get_result ?srv b" 0 200
        "\<lparr>task_status = Some ''completed'', task_results = [(?e, verdict True (b = 0))]\<rparr>" 18 b]
    by (simp add: changing_service_def raises_for_status_def)
  have cr: "create_task ?srv b batch = Response 200 (Some (Some ''task''))" for b batch
    by (simp add: changing_service_def)
  have vb: "verify_batch ?srv ?cm b batch va iv
      = (process_results ?cm [(?e, verdict True (b = 0))] va iv,
         [Reoon_create batch, Sleep 10, Reoon_poll b 0])" for b batch va iv
    by (simp add: verify_batch_def cr poll raises_for_status_def del: process_results.simps)
  have p0: "process_results ?cm [(?e, verdict True True)] [] []
      = Inr ([numbered_contact 0], [])"
    unfolding process_results.simps cm by (simp add: verdict_def)
  have p1: "process_results ?cm [(?e, verdict True False)] [numbered_contact 0] []
      = Inr ([numbered_contact 0], [invalid_record ?e (verdict True False)])"
    unfolding process_results.simps cm by (simp add: verdict_def)
  have run: "verify_batches ?srv ?cm 0 [?b0, ?b1] [] [] []
      = (Inr ([numbered_contact 0], [invalid_record ?e (verdict True False)]),
         [Reoon_create ?b0, Sleep 10, Reoon_poll 0 0, Sleep 2,
          Reoon_create ?b1, Sleep 10, Reoon_poll (Suc 0) 0, Sleep 2])"
    unfolding verify_batches.simps vb by (simp add: p0 p1 del: process_results.simps upt_Suc upt_rec_numeral)
  have "verify_emails (Some ''key'') ?srv ?cs
      = (Inr ([numbered_contact 0], [invalid_record ?e (verdict True False)]),
         [Reoon_create ?b0, Sleep 10, Reoon_poll 0 0, Sleep 2,
          Reoon_create ?b1, Sleep 10, Reoon_poll (Suc 0) 0, Sleep 2])"
    unfolding verify_emails_def bs run by simp
  moreover have "task_result ?srv 0 = [(?e, verdict True True)]"
    by (simp add: task_result_def poll)
  moreover have "task_result ?srv 1 = [(?e, verdict True False)]"
    by (simp add: task_result_def poll)
  moreover have "?e \<in> set (map inv_email [invalid_record ?e (verdict True False)])"
    by (simp add: inv_email_record)
  ultimately show ?thesis using bs by simp
qed

subsection \<open>The polling loop\<close>

lemma poll_task_Inr_completed:
  "poll_task get b a n = (Inr rs, tr) \<Longrightarrow> \<exists>k. a \<le> k \<and> k < a + n \<and> reports_completed (get k)"
proof (induction n arbitrary: a tr)
  case 0
  then show ?case by simp
next
  case (Suc n)
  show ?case
  proof (cases "reports_completed (get a)")
    case True
    then show ?thesis by (intro exI [of _ a]) simp
  next
    case False
    with Suc.prems obtain tr' where "poll_task get b (Suc a) n = (Inr rs, tr')"
      by (auto split: response.splits if_splits option.splits prod.splits)
    from Suc.IH [OF this] obtain k where "Suc a \<le> k" "k < Suc a + n" "reports_completed (get k)"
      by blast
    then show ?thesis by (intro exI [of _ k]) simp
  qed
qed

lemma poll_task_trace:
  "\<exists>m\<le>n. snd (poll_task get b a n) = concat (map (\<lambda>k. [Sleep 10, Reoon_poll b k]) [a..<a + m])"
proof (induction n arbitrary: a)
  case 0
  show ?case by simp
next
  case (Suc n)
  have one: "concat (map (\<lambda>k. [Sleep 10, Reoon_poll b k]) [a..<a + 1]) = [Sleep 10, Reoon_poll b a]"
    by simp
  from Suc.IH [of "Suc a"] obtain m where m: "m \<le> n"
    and t: "snd (poll_task get b (Suc a) n) = concat (map (\<lambda>k. [Sleep 10, Reoon_poll b k]) [Suc a..<Suc a + m])"
    by blast
  have more: "concat (map (\<lambda>k. [Sleep 10, Reoon_poll b k]) [a..<a + Suc m])
      = Sleep 10 # Reoon_poll b a # snd (poll_task get b (Suc a) n)"
    by (simp add: t upt_conv_Cons del: upt_Suc)
  have "snd (poll_task get b a (Suc n)) = [Sleep 10, Reoon_poll b a]
      \<or> snd (poll_task get b a (Suc n)) = Sleep 10 # Reoon_poll b a # snd (poll_task get b (Suc a) n)"
    by (simp split: response.splits option.splits prod.splits)
  then consider (stop) "snd (poll_task get b a (Suc n)) = [Sleep 10, Reoon_poll b a]"
    | (go) "snd (poll_task get b a (Suc n)) = Sleep 10 # Reoon_poll b a # snd (poll_task get b (Suc a) n)"
    by blast
  then show ?case
  proof cases
    case stop
    with one show ?thesis by (intro exI [of _ 1]) simp
  next
    case go
    with more m show ?thesis by (intro exI [of _ "Suc m"]) simp
  qed
qed

lemma poll_task_still_running:
  "(\<forall>k. a \<le> k \<and> k < a + n \<longrightarrow> still_running (get k)) \<Longrightarrow>
     poll_task get b a n = (Inl (Verification_failed Not_completed),
                            concat (map (\<lambda>k. [Sleep 10, Reoon_poll b k]) [a..<a + n]))"
proof (induction n arbitrary: a)
  case 0
  show ?case by simp
next
  case (Suc n)
  from Suc.prems have "still_running (get a)" by simp
  then obtain status d where g: "get a = Response status (Some d)"
    and s: "\<not> raises_for_status status" "task_status d \<noteq> Some ''completed''"
    by (cases "get a" rule: still_running.cases) auto
  from Suc.prems have "\<forall>k. Suc a \<le> k \<and> k < Suc a + n \<longrightarrow> still_running (get k)" by simp
  from Suc.IH [OF this] g s show ?case
    by (simp add: upt_conv_Cons del: upt_Suc)
qed

lemma verify_emails_cases:
  "(\<exists>e. fst (verify_emails api_key srv contacts) = Inl e)
   \<or> (\<exists>valid invalid tr. verify_emails api_key srv contacts = (Inr (valid, invalid), tr))"
  by (cases "verify_emails api_key srv contacts"; cases "fst (verify_emails api_key srv contacts)")
     auto

text \<open>
  C6.  If none of the 18 polls of the task of some batch reports \<^verbatim>\<open>completed\<close>,
  \<^verbatim>\<open>verify_emails\<close> raises: its result is an error, which carries no valid or invalid
  list.  The polls of a task are at most 18 and each is preceded by a sleep of 10 seconds.
  If all 18 polls answer that the task is still running, the polling loop makes exactly 18
  polls and raises the timeout; for the first batch the whole trace of
  \<^verbatim>\<open>verify_emails\<close> is the creation of the task followed by these 18 sleeps and polls.
\<close>

theorem poll_timeout_is_fatal:
  assumes b: "b < length (batches_of 100 (map email contacts))"
    and never: "\<forall>k<18. \<not> reports_completed (get_result srv b k)"
  shows "(\<exists>e. fst (verify_emails api_key srv contacts) = Inl e)
       \<and> (\<exists>m\<le>18. snd (poll_task (get_result srv b) b 0 18)
                    = concat (map (\<lambda>k. [Sleep 10, Reoon_poll b k]) [0..<m]))
       \<and> ((\<forall>k<18. still_running (get_result srv b k)) \<longrightarrow>
            poll_task (get_result srv b) b 0 18
              = (Inl (Verification_failed Not_completed),
                 concat (map (\<lambda>k. [Sleep 10, Reoon_poll b k]) [0..<18])))
       \<and> ((\<forall>k<18. still_running (get_result srv b k)) \<and> b = 0 \<and> truthy api_key
            \<and> create_task srv 0 (take 100 (map email contacts)) = Response 200 (Some (Some task_id))
            \<and> task_id \<noteq> [] \<longrightarrow>
            verify_emails api_key srv contacts
              = (Inl (Verification_failed Not_completed),
                 Reoon_create (take 100 (map email contacts))
                   # concat (map (\<lambda>k. [Sleep 10, Reoon_poll 0 k]) [0..<18])))"
proof (intro conjI impI)
  show "\<exists>e. fst (verify_emails api_key srv contacts) = Inl e"
  proof (rule ccontr)
    assume "\<not> (\<exists>e. fst (verify_emails api_key srv contacts) = Inl e)"
    with verify_emails_cases [of api_key srv contacts] obtain valid invalid tr
      where "verify_emails api_key srv contacts = (Inr (valid, invalid), tr)" by blast
    from verify_emails_Inr [OF this] have
      "verify_batches srv (contact_map contacts) 0 (batches_of 100 (map email contacts)) [] [] []
         = (Inr (valid, invalid), tr)" by simp
    from verify_batches_Inr [OF this] b obtain rs ptr
      where "poll_task (get_result srv b) b 0 18 = (Inr rs, ptr)" by auto
    from poll_task_Inr_completed [OF this] never show False by auto
  qed
next
  from poll_task_trace [of 18 "get_result srv b" b 0]
  show "\<exists>m\<le>18. snd (poll_task (get_result srv b) b 0 18)
                    = concat (map (\<lambda>k. [Sleep 10, Reoon_poll b k]) [0..<m])"
    by simp
next
  assume "\<forall>k<18. still_running (get_result srv b k)"
  then show "poll_task (get_result srv b) b 0 18
              = (Inl (Verification_failed Not_completed),
                 concat (map (\<lambda>k. [Sleep 10, Reoon_poll b k]) [0..<18]))"
    using poll_task_still_running [of 0 18 "get_result srv b" b] by simp
next
  assume a: "(\<forall>k<18. still_running (get_result srv b k)) \<and> b = 0 \<and> truthy api_key
            \<and> create_task srv 0 (take 100 (map email contacts)) = Response 200 (Some (Some task_id))
            \<and> task_id \<noteq> []"
  then have "\<forall>k. 0 \<le> k \<and> k < 0 + 18 \<longrightarrow> still_running (get_result srv 0 k)" by auto
  from poll_task_still_running [OF this]
  have p: "poll_task (get_result srv 0) 0 0 18
              = (Inl (Verification_failed Not_completed),
                 concat (map (\<lambda>k. [Sleep 10, Reoon_poll 0 k]) [0..<18]))"
    by simp
  from b have ne: "map email contacts \<noteq> []" by auto
  then have bs: "batches_of 100 (map email contacts)
      = take 100 (map email contacts) # batches_of 100 (drop 100 (map email contacts))"
    by (subst batches_of.simps) simp
  from a show "verify_emails api_key srv contacts
              = (Inl (Verification_failed Not_completed),
                 Reoon_create (take 100 (map email contacts))
                   # concat (map (\<lambda>k. [Sleep 10, Reoon_poll 0 k]) [0..<18]))"
    unfolding verify_emails_def bs
    by (simp add: verify_batch_def p raises_for_status_def del: upt_Suc)
qed

theorem poll_timeout_is_fatal_witness:
  "verify_emails (Some ''key'') stalled_service [numbered_contact 0]
     = (Inl (Verification_failed Not_completed),
        Reoon_create (take 100 (map email [numbered_contact 0]))
          # concat (map (\<lambda>k. [Sleep 10, Reoon_poll 0 k]) [0..<18]))"
proof -
  have b: "0 < length (batches_of 100 (map email [numbered_contact 0]))"
    by (simp add: batches_of_single)
  have never: "\<forall>k<18. \<not> reports_completed (get_result stalled_service 0 k)"
    by (simp add: stalled_service_def)
  have run: "\<forall>k<18. still_running (get_result stalled_service 0 k)"
    by (simp add: stalled_service_def raises_for_status_def)
  have c: "create_task stalled_service 0 (take 100 (map email [numbered_contact 0]))
      = Response 200 (Some (Some ''task''))"
    by (simp add: stalled_service_def)
  from poll_timeout_is_fatal [OF b never, of "Some ''key''" "''task''"] run c
  show ?thesis by simp
qed

text \<open>
  C9.  If \<^verbatim>\<open>verify_emails\<close> returns, every key of every returned result set is the email
  of one of the contacts passed in.  If the completed task of some batch returns an email
  that is not the email of any contact passed in, \<^verbatim>\<open>verify_emails\<close> raises; the loop
  over the results raises \<^verbatim>\<open>KeyError\<close> at the first such email instead of skipping it.
\<close>

theorem unknown_result_email_raises:
  "(verify_emails api_key srv contacts = (Inr (valid, invalid), tr) \<longrightarrow>
      fst ` set (returned_results srv 0 (length (batches_of 100 (map email contacts))))
        \<subseteq> email ` set contacts)
   \<and> (b < length (batches_of 100 (map email contacts))
        \<and> poll_task (get_result srv b) b 0 18 = (Inr rs, ptr)
        \<and> (e, v) \<in> set rs \<and> e \<notin> email ` set contacts \<longrightarrow>
      (\<exists>err. fst (verify_emails api_key srv contacts) = Inl err))
   \<and> (e \<notin> email ` set contacts \<and> fst ` set pre \<subseteq> email ` set contacts \<longrightarrow>
        process_results (contact_map contacts) (pre @ (e, v) # post) va iv
          = Inl (Verification_failed (KeyError e)))"
proof (intro conjI impI)
  assume "verify_emails api_key srv contacts = (Inr (valid, invalid), tr)"
  from verify_emails_Inr [OF this] have
    "verify_batches srv (contact_map contacts) 0 (batches_of 100 (map email contacts)) [] [] []
       = (Inr (valid, invalid), tr)" by simp
  from verify_batches_Inr [OF this]
  show "fst ` set (returned_results srv 0 (length (batches_of 100 (map email contacts))))
        \<subseteq> email ` set contacts"
    by (simp add: dom_contact_map)
next
  assume a: "b < length (batches_of 100 (map email contacts))
        \<and> poll_task (get_result srv b) b 0 18 = (Inr rs, ptr)
        \<and> (e, v) \<in> set rs \<and> e \<notin> email ` set contacts"
  show "\<exists>err. fst (verify_emails api_key srv contacts) = Inl err"
  proof (rule ccontr)
    assume "\<not> (\<exists>err. fst (verify_emails api_key srv contacts) = Inl err)"
    with verify_emails_cases [of api_key srv contacts] obtain valid invalid tr
      where "verify_emails api_key srv contacts = (Inr (valid, invalid), tr)" by blast
    from verify_emails_Inr [OF this] have
      "verify_batches srv (contact_map contacts) 0 (batches_of 100 (map email contacts)) [] [] []
         = (Inr (valid, invalid), tr)" by simp
    from verify_batches_Inr [OF this] have
      sub: "fst ` set (returned_results srv 0 (length (batches_of 100 (map email contacts))))
        \<subseteq> email ` set contacts"
      by (simp add: dom_contact_map)
    from a have "task_result srv b = rs" by (simp add: task_result_def)
    with a have "(e, v) \<in> set (returned_results srv 0 (length (batches_of 100 (map email contacts))))"
      by (auto simp: returned_results_def intro!: bexI [of _ b])
    with sub have "e \<in> email ` set contacts" by force
    with a show False by simp
  qed
next
  assume "e \<notin> email ` set contacts \<and> fst ` set pre \<subseteq> email ` set contacts"
  then show "process_results (contact_map contacts) (pre @ (e, v) # post) va iv
          = Inl (Verification_failed (KeyError e))"
    by (intro process_results_KeyError) (auto simp: dom_contact_map [symmetric])
qed

theorem unknown_result_email_raises_witness:
  "(\<exists>err. fst (verify_emails (Some ''key'')
              (prompt_service [(''stranger@example.com'', verdict True True)])
              [numbered_contact 0]) = Inl err)
   \<and> process_results (contact_map [numbered_contact 0])
        ([] @ (''stranger@example.com'', verdict True True) # []) [] []
      = Inl (Verification_failed (KeyError ''stranger@example.com''))"
proof -
  let ?rs = "[(''stranger@example.com'', verdict True True)]"
  have b: "0 < length (batches_of 100 (map email [numbered_contact 0]))"
    by (simp add: batches_of_single)
  have poll: "poll_task (get_result (prompt_service ?rs) 0) 0 0 18 = (Inr ?rs, [Sleep 10, Reoon_poll 0 0])"
    using poll_task_completed_first [of "get_result (prompt_service ?rs) 0" 0 200
        "\<lparr>task_status = Some ''completed'', task_results = ?rs\<rparr>" 18 0]
    by (simp add: prompt_service_def raises_for_status_def)
  have m: "(''stranger@example.com'', verdict True True) \<in> set ?rs" by simp
  have u: "''stranger@example.com'' \<notin> email ` set [numbered_contact 0]"
    by (simp add: numbered_contact_def)
  have p: "fst ` set [] \<subseteq> email ` set [numbered_contact 0]" by simp
  from unknown_result_email_raises [of "Some ''key''" "prompt_service ?rs" "[numbered_contact 0]"
      _ _ _ 0 ?rs "[Sleep 10, Reoon_poll 0 0]" "''stranger@example.com''" "verdict True True"
      "[]" "[]" "[]" "[]"]
    b poll m u p
  show ?thesis by blast
qed

section \<open>Properties of push_to_instantly\<close>

lemma uploaded_count_append: "uploaded_count (tr @ ev) = uploaded_count tr + uploaded_count ev"
  by (simp add: uploaded_count_def)

lemma upload_sizes_append: "upload_sizes (tr @ ev) = upload_sizes tr @ upload_sizes ev"
  by (induction tr rule: upload_sizes.induct) simp_all

lemma leads_accepted_upload:
  "leads_accepted (Instantly (upload_request campaign_id batch) (Some status))
     = (if status = 200 \<or> status = 201 then length batch else 0)"
  by (cases batch rule: remdups_adj.cases) (simp_all add: upload_request_def)

lemma leads_accepted_upload_None:
  "leads_accepted (Instantly (upload_request campaign_id batch) None) = 0"
  by (cases batch rule: remdups_adj.cases) (simp_all add: upload_request_def)

lemma upload_sizes_upload:
  "upload_sizes (Instantly (upload_request campaign_id batch) status # ev)
     = length batch # upload_sizes ev"
  by (cases batch rule: remdups_adj.cases) (simp_all add: upload_request_def)

text \<open>
  The loop over the batches of a campaign makes one request for each batch, in order, and
  adds to the uploaded the size of each batch whose request was answered with 200 or 201.
\<close>

lemma upload_batches_run:
  "\<exists>ev. upload_batches srv campaign_id bs t uploaded tr
          = (t + length bs,
             uploaded + (\<Sum>i<length bs.
                        if accepted (srv (t + i) (upload_request campaign_id (bs ! i)))
                        then length (bs ! i) else 0),
             tr @ ev)
        \<and> uploaded_count ev
            = (\<Sum>i<length bs.
                 if accepted (srv (t + i) (upload_request campaign_id (bs ! i)))
                 then length (bs ! i) else 0)
        \<and> upload_sizes ev = map length bs"
proof (induction bs arbitrary: t uploaded tr)
  case Nil
  show ?case by (simp add: uploaded_count_def)
next
  case (Cons batch rest)
  let ?req = "upload_request campaign_id batch"
  let ?rest = "\<Sum>i<length rest.
                 if accepted (srv (Suc t + i) (upload_request campaign_id (rest ! i)))
                 then length (rest ! i) else 0"
  have split: "(\<Sum>i<length (batch # rest).
                 if accepted (srv (t + i) (upload_request campaign_id ((batch # rest) ! i)))
                 then length ((batch # rest) ! i) else 0)
      = (if accepted (srv t ?req) then length batch else 0) + ?rest"
    by (simp add: sum.lessThan_Suc_shift del: sum.lessThan_Suc cong: if_cong)
  show ?case
  proof (cases "srv t ?req")
    case No_response
    from Cons.IH [of "Suc t" uploaded "tr @ [Instantly ?req None]"] obtain ev where
      ev: "upload_batches srv campaign_id rest (Suc t) uploaded (tr @ [Instantly ?req None])
            = (Suc t + length rest, uploaded + ?rest, (tr @ [Instantly ?req None]) @ ev)"
        "uploaded_count ev = ?rest" "upload_sizes ev = map length rest"
      by blast
    show ?thesis
      unfolding split
      using No_response ev
      by (intro exI [of _ "Instantly ?req None # ev"])
         (simp add: uploaded_count_def leads_accepted_upload_None upload_sizes_upload)
  next
    case (Response status body)
    let ?n = "if status = 200 \<or> status = 201 then length batch else 0"
    from Cons.IH [of "Suc t" "uploaded + ?n" "tr @ [Instantly ?req (Some status), Sleep 1]"]
    obtain ev where
      ev: "upload_batches srv campaign_id rest (Suc t) (uploaded + ?n)
              (tr @ [Instantly ?req (Some status), Sleep 1])
            = (Suc t + length rest, uploaded + ?n + ?rest,
               (tr @ [Instantly ?req (Some status), Sleep 1]) @ ev)"
        "uploaded_count ev = ?rest" "upload_sizes ev = map length rest"
      by blast
    have u: "upload_sizes (Instantly ?req (Some status) # Sleep 1 # ev) = length batch # map length rest"
      using ev(3) by (simp add: upload_sizes_upload)
    show ?thesis
      unfolding split
      using Response ev(1,2) u
      by (intro exI [of _ "Instantly ?req (Some status) # Sleep 1 # ev"])
         (auto simp: uploaded_count_def leads_accepted_upload)
  qed
qed

text \<open>
  With a non-zero batch size the loop over the campaigns never raises, and what it adds to
  the total is the number of leads in the uploads that the trace shows answered with 200
  or 201.
\<close>

lemma push_campaigns_run:
  "batch_size \<noteq> 0 \<Longrightarrow>
     \<exists>ev. push_campaigns env srv batch_size contacts_split t uploaded tr
            = (Inr (uploaded + uploaded_count ev), tr @ ev)"
proof (induction contacts_split arbitrary: t uploaded tr)
  case Nil
  show ?case by (simp add: uploaded_count_def)
next
  case (Cons entry rest)
  obtain campaign_key contact_list where entry: "entry = (campaign_key, contact_list)"
    by (cases entry)
  note IH = Cons.IH [OF Cons.prems]
  show ?case
  proof (cases "\<exists>cid. campaign_ids_get env campaign_key = Some cid \<and> cid \<noteq> [] \<and> contact_list \<noteq> []")
    case False
    then have "push_campaigns env srv batch_size (entry # rest) t uploaded tr
        = push_campaigns env srv batch_size rest t uploaded tr"
      by (auto simp: entry split: option.splits)
    with IH [of t uploaded tr] show ?thesis by simp
  next
    case True
    then obtain cid where cid: "campaign_ids_get env campaign_key = Some cid" "cid \<noteq> []"
      and ne: "contact_list \<noteq> []" by blast
    from Cons.prems have "\<exists>batches. range_batches batch_size contact_list = Inr batches"
      by (simp add: range_batches_def)
    then obtain batches where b: "range_batches batch_size contact_list = Inr batches"
      by blast
    from upload_batches_run [of srv cid batches t uploaded tr] obtain ev1 t1 u1 where
      up: "upload_batches srv cid batches t uploaded tr = (t1, uploaded + u1, tr @ ev1)"
      and c1: "uploaded_count ev1 = u1"
      by blast
    from IH [of t1 "uploaded + u1" "tr @ ev1"] obtain ev2 where
      "push_campaigns env srv batch_size rest t1 (uploaded + u1) (tr @ ev1)
         = (Inr (uploaded + u1 + uploaded_count ev2), (tr @ ev1) @ ev2)"
      by blast
    with cid ne b up c1 show ?thesis
      by (intro exI [of _ "ev1 @ ev2"]) (simp add: entry uploaded_count_append)
  qed
qed

lemma campaign_ids_get_unknown:
  "campaign_key \<noteq> ''campaign_a'' \<Longrightarrow> campaign_key \<noteq> ''campaign_b'' \<Longrightarrow>
     campaign_ids_get env campaign_key = None"
  by (simp add: campaign_ids_get_def campaign_ids_def)

text \<open>An entry whose key is neither \<^verbatim>\<open>campaign_a\<close> nor \<^verbatim>\<open>campaign_b\<close> is skipped.\<close>

lemma push_campaigns_skip:
  "push_campaigns env srv batch_size contacts_split t uploaded tr
     = push_campaigns env srv batch_size
         (filter (\<lambda>(k, cs). k = ''campaign_a'' \<or> k = ''campaign_b'') contacts_split) t uploaded tr"
proof (induction env srv batch_size contacts_split t uploaded tr rule: push_campaigns.induct)
  case (1 env srv batch_size t total_uploaded tr)
  show ?case by simp
next
  case (2 env srv batch_size campaign_key contact_list rest t total_uploaded tr)
  show ?case
  proof (cases "campaign_key = ''campaign_a'' \<or> campaign_key = ''campaign_b''")
    case False
    then have "campaign_ids_get env campaign_key = None"
      by (simp add: campaign_ids_get_unknown)
    with False 2 show ?thesis by simp
  next
    case True
    then have f: "filter (\<lambda>(k, cs). k = ''campaign_a'' \<or> k = ''campaign_b'') ((campaign_key, contact_list) # rest)
        = (campaign_key, contact_list) # filter (\<lambda>(k, cs). k = ''campaign_a'' \<or> k = ''campaign_b'') rest"
      by simp
    show ?thesis
      unfolding f using 2
      by (simp split: option.splits sum.splits prod.splits)
  qed
qed

lemma credentials_check:
  "(\<not> truthy (instantly_api_key env) \<or> \<not> list_all truthy (map snd (campaign_ids env)))
     = (\<not> instantly_credentials_ok env)"
  by (auto simp: instantly_credentials_ok_def campaign_ids_def)

text \<open>
  C2, as stated, fails: with the API key and the primary identifier set and the secondary
  identifier not configured, a split with contacts for both campaigns is not uploaded with
  \<^verbatim>\<open>campaign_b\<close> skipped; \<^verbatim>\<open>push_to_instantly\<close> raises \<^verbatim>\<open>ValueError\<close> before any
  request is made.
\<close>

theorem push_to_instantly_unconfigured_campaign_raises:
  "campaign_ids_get
      \<lparr>instantly_api_key = Some ''key'', campaign_primary_id = Some ''primary-id'',
       campaign_secondary_id = None\<rparr> ''campaign_b'' = None
   \<and> push_to_instantly
        \<lparr>instantly_api_key = Some ''key'', campaign_primary_id = Some ''primary-id'',
         campaign_secondary_id = None\<rparr>
        (\<lambda>t request. Response 200 None)
        [(''campaign_a'', [numbered_contact 0]), (''campaign_b'', [numbered_contact 1])] 100
      = (Inl Missing_credentials, [])"
  by (simp add: push_to_instantly_def campaign_ids_get_def campaign_ids_def)

lemma campaign_ids_get_destination: "campaign_ids_get env campaign_key = destination env campaign_key"
  by (simp add: campaign_ids_get_def campaign_ids_def destination_def)

lemma planned_request_eq: "planned_request campaign_id batch = upload_request campaign_id batch"
  by (cases batch rule: remdups_adj.cases)
     (simp_all add: planned_request_def upload_request_def lead_data_def)

lemma batches_of_sizes: "b \<in> set (batches_of n xs) \<Longrightarrow> b \<noteq> [] \<and> length b \<le> n"
proof (induction n xs rule: batches_of.induct)
  case (1 n xs)
  show ?case
  proof (cases "n = 0 \<or> xs = []")
    case True
    with 1(2) show ?thesis by (simp add: batches_of.simps [of n xs])
  next
    case False
    with 1(2) have "b = take n xs \<or> b \<in> set (batches_of n (drop n xs))"
      by (simp add: batches_of.simps [of n xs])
    with False 1(1) show ?thesis by auto
  qed
qed

lemma planned_batches_sizes:
  "(d, b) \<in> set (planned_batches env batch_size contacts_split) \<Longrightarrow>
     b \<noteq> [] \<and> int (length b) \<le> batch_size"
proof -
  assume "(d, b) \<in> set (planned_batches env batch_size contacts_split)"
  then obtain cs where "b \<in> set (batches_of (nat batch_size) cs)"
    by (auto simp: planned_batches_def split: if_splits)
  from batches_of_sizes [OF this] have "b \<noteq> []" and "length b \<le> nat batch_size"
    by simp_all
  moreover from this have "0 < length b" by simp
  ultimately show ?thesis by linarith
qed

lemma uploaded_total_append:
  "uploaded_total srv t (xs @ ys) = uploaded_total srv t xs + uploaded_total srv (t + length xs) ys"
  by (induction srv t xs rule: uploaded_total.induct) simp_all

lemma upload_events_append:
  "upload_events srv t (xs @ ys) = upload_events srv t xs @ upload_events srv (t + length xs) ys"
  by (induction srv t xs rule: upload_events.induct) simp_all

lemma uploaded_count_upload_events:
  "uploaded_count (upload_events srv t plan) = uploaded_total srv t plan"
proof (induction srv t plan rule: upload_events.induct)
  case (1 srv t)
  show ?case by (simp add: uploaded_count_def)
next
  case (2 srv t campaign_id batch rest)
  then show ?case
    by (cases "srv t (upload_request campaign_id batch)")
       (simp_all add: planned_request_eq uploaded_count_append leads_accepted_upload
          leads_accepted_upload_None,
        simp_all add: uploaded_count_def leads_accepted_upload leads_accepted_upload_None)
qed

text \<open>The loop over the batches of one campaign does what is planned for them.\<close>

lemma upload_batches_planned:
  "upload_batches srv campaign_id bs t uploaded tr
     = (t + length bs,
        uploaded + uploaded_total srv t (map (Pair campaign_id) bs),
        tr @ upload_events srv t (map (Pair campaign_id) bs))"
proof (induction bs arbitrary: t uploaded tr)
  case Nil
  show ?case by simp
next
  case (Cons batch rest)
  show ?case
    by (cases "srv t (upload_request campaign_id batch)")
       (simp_all add: Cons.IH planned_request_eq)
qed

lemma push_campaigns_planned:
  "batch_size \<noteq> 0 \<Longrightarrow>
     push_campaigns env srv batch_size contacts_split t uploaded tr
       = (Inr (uploaded + uploaded_total srv t (planned_batches env batch_size contacts_split)),
          tr @ upload_events srv t (planned_batches env batch_size contacts_split))"
proof (induction contacts_split arbitrary: t uploaded tr)
  case Nil
  show ?case by (simp add: planned_batches_def)
next
  case (Cons entry rest)
  obtain campaign_key contact_list where entry: "entry = (campaign_key, contact_list)"
    by (cases entry)
  note IH = Cons.IH [OF Cons.prems]
  have rb: "range_batches batch_size contact_list = Inr (batches_of (nat batch_size) contact_list)"
    using Cons.prems by (simp add: range_batches_def batches_of.simps [of 0])
  show ?case
  proof (cases "truthy (destination env campaign_key)")
    case False
    then have "planned_batches env batch_size (entry # rest) = planned_batches env batch_size rest"
      by (simp add: planned_batches_def entry)
    moreover from False have "push_campaigns env srv batch_size (entry # rest) t uploaded tr
        = push_campaigns env srv batch_size rest t uploaded tr"
      by (cases "destination env campaign_key") (simp_all add: entry campaign_ids_get_destination)
    ultimately show ?thesis using IH [of t uploaded tr] by simp
  next
    case True
    then obtain cid where cid: "destination env campaign_key = Some cid" "cid \<noteq> []"
      by (cases "destination env campaign_key") simp_all
    let ?bs = "batches_of (nat batch_size) contact_list"
    have plan: "planned_batches env batch_size (entry # rest)
        = map (Pair cid) ?bs @ planned_batches env batch_size rest"
      using cid by (simp add: planned_batches_def entry)
    show ?thesis
    proof (cases "contact_list = []")
      case True
      with cid plan IH [of t uploaded tr] show ?thesis
        by (simp add: entry campaign_ids_get_destination)
    next
      case False
      have "push_campaigns env srv batch_size (entry # rest) t uploaded tr
          = push_campaigns env srv batch_size rest (t + length ?bs)
              (uploaded + uploaded_total srv t (map (Pair cid) ?bs))
              (tr @ upload_events srv t (map (Pair cid) ?bs))"
        using cid False
        by (simp add: entry campaign_ids_get_destination rb upload_batches_planned)
      also have "\<dots> = (Inr (uploaded + uploaded_total srv t (map (Pair cid) ?bs)
                          + uploaded_total srv (t + length ?bs) (planned_batches env batch_size rest)),
                     (tr @ upload_events srv t (map (Pair cid) ?bs))
                       @ upload_events srv (t + length ?bs) (planned_batches env batch_size rest))"
        by (rule IH)
      finally show ?thesis
        by (simp add: plan uploaded_total_append upload_events_append)
    qed
  qed
qed

text \<open>With batch size 0, \<^verbatim>\<open>range\<close> raises at the first campaign that has a destination
  and contacts, before any request.\<close>

lemma push_campaigns_zero:
  "push_campaigns env srv 0 contacts_split t uploaded tr
     = (if \<exists>(campaign_key, contact_list)\<in>set contacts_split.
             truthy (destination env campaign_key) \<and> contact_list \<noteq> []
        then (Inl Range_step_zero, tr) else (Inr uploaded, tr))"
proof (induction contacts_split)
  case Nil
  show ?case by simp
next
  case (Cons entry rest)
  obtain campaign_key contact_list where entry: "entry = (campaign_key, contact_list)"
    by (cases entry)
  show ?case
  proof (cases "truthy (destination env campaign_key) \<and> contact_list \<noteq> []")
    case True
    then obtain cid where "destination env campaign_key = Some cid" "cid \<noteq> []"
      by (cases "destination env campaign_key") simp_all
    with True show ?thesis
      by (simp add: entry campaign_ids_get_destination range_batches_def)
  next
    case False
    then have "push_campaigns env srv 0 (entry # rest) t uploaded tr
        = push_campaigns env srv 0 rest t uploaded tr"
      by (cases "destination env campaign_key") (auto simp: entry campaign_ids_get_destination)
    with False Cons show ?thesis by (auto simp: entry)
  qed
qed

lemma planned_batches_skip:
  "planned_batches env batch_size contacts_split
     = planned_batches env batch_size
         (filter (\<lambda>(k, cs). k = ''campaign_a'' \<or> k = ''campaign_b'') contacts_split)"
proof (induction contacts_split)
  case Nil
  show ?case by simp
next
  case (Cons entry rest)
  obtain k cs where entry: "entry = (k, cs)" by (cases entry)
  have step: "planned_batches env batch_size (e # es)
      = planned_batches env batch_size [e] @ planned_batches env batch_size es" for e es
    by (simp add: planned_batches_def)
  show ?case
  proof (cases "k = ''campaign_a'' \<or> k = ''campaign_b''")
    case True
    then have "filter (\<lambda>(k, cs). k = ''campaign_a'' \<or> k = ''campaign_b'') (entry # rest)
        = entry # filter (\<lambda>(k, cs). k = ''campaign_a'' \<or> k = ''campaign_b'') rest"
      by (simp add: entry)
    with Cons show ?thesis
      by (simp add: step [of entry rest]
          step [of entry "filter (\<lambda>(k, cs). k = ''campaign_a'' \<or> k = ''campaign_b'') rest"])
  next
    case False
    then have "destination env k = None" by (simp add: destination_def)
    then have "planned_batches env batch_size [entry] = []"
      by (simp add: planned_batches_def entry)
    with False Cons show ?thesis
      by (simp add: step [of "(k, cs)" rest] entry)
  qed
qed

lemma planned_batches_cover:
  "0 < batch_size \<Longrightarrow>
     concat (map snd (planned_batches env batch_size contacts_split))
       = concat (map snd (filter (\<lambda>(k, cs). truthy (destination env k)) contacts_split))"
proof (induction contacts_split)
  case Nil
  show ?case by (simp add: planned_batches_def)
next
  case (Cons entry rest)
  obtain k cs where entry: "entry = (k, cs)" by (cases entry)
  have step: "planned_batches env batch_size (entry # rest)
      = (if truthy (destination env k)
         then map (Pair (get_or_empty (destination env k))) (batches_of (nat batch_size) cs) else [])
        @ planned_batches env batch_size rest"
    by (simp add: planned_batches_def entry)
  have "concat (map snd (map (Pair (get_or_empty (destination env k))) (batches_of (nat batch_size) cs))) = cs"
    using Cons.prems by (simp add: comp_def concat_batches_of)
  with Cons show ?case
    unfolding step by (simp add: entry)
qed

lemma destination_known:
  "instantly_credentials_ok env \<Longrightarrow>
     truthy (destination env k) = (k = ''campaign_a'' \<or> k = ''campaign_b'')"
  by (simp add: instantly_credentials_ok_def destination_def)

text \<open>
  C2, amended.  \<^verbatim>\<open>push_to_instantly\<close> raises, before any request, when the API key or
  either of the two campaign identifiers is missing: both identifiers are top-level
  credentials, so a \<^verbatim>\<open>campaign_a\<close> or \<^verbatim>\<open>campaign_b\<close> without identifier is an error
  and not a skip.  With the three of them set and a non-zero batch size it never raises,
  whatever the provider answers: it makes exactly the planned requests, one for each batch
  of each \<^verbatim>\<open>campaign_a\<close> and \<^verbatim>\<open>campaign_b\<close> entry in order, and returns the number of
  contacts in the batches whose request was answered with 200 or 201.  With the three of
  them set and batch size 0 it raises \<^verbatim>\<open>ValueError\<close> (the step of \<^verbatim>\<open>range\<close>) before
  any request if some \<^verbatim>\<open>campaign_a\<close> or \<^verbatim>\<open>campaign_b\<close> entry has contacts, and returns
  0 otherwise.  The entries that it skips are those whose key has no identifier at all,
  that is every key other than \<^verbatim>\<open>campaign_a\<close> and \<^verbatim>\<open>campaign_b\<close>: the plan, the result
  and the trace are those of the mapping without them.  For a positive batch size the
  planned batches of the entries are their contacts, each once and in order; a planned
  batch is never empty nor longer than the batch size; the total is also the number of
  leads that the trace shows accepted.
\<close>

theorem push_to_instantly_raises_only_for_credentials:
  "(\<not> instantly_credentials_ok env \<longrightarrow>
      push_to_instantly env srv contacts_split batch_size = (Inl Missing_credentials, []))
   \<and> (instantly_credentials_ok env \<and> batch_size \<noteq> 0 \<longrightarrow>
        push_to_instantly env srv contacts_split batch_size
          = (Inr (uploaded_total srv 0 (planned_batches env batch_size contacts_split)),
             upload_events srv 0 (planned_batches env batch_size contacts_split)))
   \<and> (instantly_credentials_ok env \<and> batch_size = 0 \<longrightarrow>
        push_to_instantly env srv contacts_split batch_size
          = (if \<exists>(k, cs)\<in>set contacts_split. (k = ''campaign_a'' \<or> k = ''campaign_b'') \<and> cs \<noteq> []
             then (Inl Range_step_zero, []) else (Inr 0, [])))
   \<and> planned_batches env batch_size contacts_split
       = planned_batches env batch_size
           (filter (\<lambda>(k, cs). k = ''campaign_a'' \<or> k = ''campaign_b'') contacts_split)
   \<and> push_to_instantly env srv contacts_split batch_size
       = push_to_instantly env srv
           (filter (\<lambda>(k, cs). k = ''campaign_a'' \<or> k = ''campaign_b'') contacts_split) batch_size
   \<and> (instantly_credentials_ok env \<and> 0 < batch_size \<longrightarrow>
        concat (map snd (planned_batches env batch_size contacts_split))
          = concat (map snd (filter (\<lambda>(k, cs). k = ''campaign_a'' \<or> k = ''campaign_b'')
                               contacts_split)))
   \<and> (\<forall>(d, b)\<in>set (planned_batches env batch_size contacts_split).
         b \<noteq> [] \<and> int (length b) \<le> batch_size)
   \<and> uploaded_count (upload_events srv 0 (planned_batches env batch_size contacts_split))
       = uploaded_total srv 0 (planned_batches env batch_size contacts_split)"
proof (intro conjI impI)
  assume "\<not> instantly_credentials_ok env"
  then show "push_to_instantly env srv contacts_split batch_size = (Inl Missing_credentials, [])"
    unfolding push_to_instantly_def credentials_check by simp
next
  assume a: "instantly_credentials_ok env \<and> batch_size \<noteq> 0"
  then show "push_to_instantly env srv contacts_split batch_size
          = (Inr (uploaded_total srv 0 (planned_batches env batch_size contacts_split)),
             upload_events srv 0 (planned_batches env batch_size contacts_split))"
    unfolding push_to_instantly_def credentials_check
    by (simp add: push_campaigns_planned)
next
  assume a: "instantly_credentials_ok env \<and> batch_size = 0"
  then show "push_to_instantly env srv contacts_split batch_size
          = (if \<exists>(k, cs)\<in>set contacts_split. (k = ''campaign_a'' \<or> k = ''campaign_b'') \<and> cs \<noteq> []
             then (Inl Range_step_zero, []) else (Inr 0, []))"
    unfolding push_to_instantly_def credentials_check
    by (simp add: push_campaigns_zero destination_known)
next
  show "planned_batches env batch_size contacts_split
       = planned_batches env batch_size
           (filter (\<lambda>(k, cs). k = ''campaign_a'' \<or> k = ''campaign_b'') contacts_split)"
    by (rule planned_batches_skip)
next
  show "push_to_instantly env srv contacts_split batch_size
       = push_to_instantly env srv
           (filter (\<lambda>(k, cs). k = ''campaign_a'' \<or> k = ''campaign_b'') contacts_split) batch_size"
    unfolding push_to_instantly_def using push_campaigns_skip [of env srv batch_size contacts_split 0 0 "[]"]
    by simp
next
  assume a: "instantly_credentials_ok env \<and> 0 < batch_size"
  then have "(\<lambda>(k, cs). truthy (destination env k))
      = (\<lambda>(k, cs :: contact list). k = ''campaign_a'' \<or> k = ''campaign_b'')"
    by (simp add: destination_known fun_eq_iff)
  with a planned_batches_cover [of batch_size env contacts_split]
  show "concat (map snd (planned_batches env batch_size contacts_split))
          = concat (map snd (filter (\<lambda>(k, cs). k = ''campaign_a'' \<or> k = ''campaign_b'')
                               contacts_split))"
    by simp
next
  show "\<forall>(d, b)\<in>set (planned_batches env batch_size contacts_split).
         b \<noteq> [] \<and> int (length b) \<le> batch_size"
    using planned_batches_sizes by blast
next
  show "uploaded_count (upload_events srv 0 (planned_batches env batch_size contacts_split))
       = uploaded_total srv 0 (planned_batches env batch_size contacts_split)"
    by (rule uploaded_count_upload_events)
qed

theorem push_to_instantly_raises_only_for_credentials_witness:
  "push_to_instantly
      \<lparr>instantly_api_key = Some ''key'', campaign_primary_id = None,
       campaign_secondary_id = Some ''secondary-id''\<rparr>
      second_request_fails [(''campaign_a'', [numbered_contact 0])] 100
     = (Inl Missing_credentials, [])
   \<and> push_to_instantly instantly_env_example second_request_fails
        [(''campaign_a'', [numbered_contact 0, numbered_contact 2]),
         (''campaign_c'', [numbered_contact 3]), (''campaign_b'', [numbered_contact 4])] 100
      = (Inr 2,
         [Instantly (planned_request ''primary-id'' [numbered_contact 0, numbered_contact 2]) (Some 200),
          Sleep 1,
          Instantly (planned_request ''secondary-id'' [numbered_contact 4]) (Some 500), Sleep 1])
   \<and> push_to_instantly instantly_env_example second_request_fails
        [(''campaign_a'', [numbered_contact 0, numbered_contact 2]),
         (''campaign_c'', [numbered_contact 3]), (''campaign_b'', [numbered_contact 4])] 0
      = (Inl Range_step_zero, [])"
proof -
  let ?bad = "\<lparr>instantly_api_key = Some ''key'', campaign_primary_id = None,
       campaign_secondary_id = Some ''secondary-id''\<rparr>"
  let ?split = "[(''campaign_a'', [numbered_contact 0, numbered_contact 2]),
         (''campaign_c'', [numbered_contact 3]), (''campaign_b'', [numbered_contact 4])]"
  have bad: "\<not> instantly_credentials_ok ?bad"
    by (simp add: instantly_credentials_ok_def)
  have good: "instantly_credentials_ok instantly_env_example"
    by (simp add: instantly_credentials_ok_def instantly_env_example_def)
  have plan: "planned_batches instantly_env_example 100 ?split
      = [(''primary-id'', [numbered_contact 0, numbered_contact 2]),
         (''secondary-id'', [numbered_contact 4])]"
    by (simp add: planned_batches_def destination_def instantly_env_example_def batches_of_single)
  have some: "\<exists>(k, cs)\<in>set ?split. (k = ''campaign_a'' \<or> k = ''campaign_b'') \<and> cs \<noteq> []"
    by simp
  from push_to_instantly_raises_only_for_credentials
      [of ?bad second_request_fails "[(''campaign_a'', [numbered_contact 0])]" 100] bad
  have one: "push_to_instantly ?bad second_request_fails [(''campaign_a'', [numbered_contact 0])] 100
     = (Inl Missing_credentials, [])"
    by blast
  from push_to_instantly_raises_only_for_credentials
      [of instantly_env_example second_request_fails ?split 100] good
  have "push_to_instantly instantly_env_example second_request_fails ?split 100
      = (Inr (uploaded_total second_request_fails 0 (planned_batches instantly_env_example 100 ?split)),
         upload_events second_request_fails 0 (planned_batches instantly_env_example 100 ?split))"
    by simp
  then have two: "push_to_instantly instantly_env_example second_request_fails ?split 100
      = (Inr 2,
         [Instantly (planned_request ''primary-id'' [numbered_contact 0, numbered_contact 2]) (Some 200),
          Sleep 1,
          Instantly (planned_request ''secondary-id'' [numbered_contact 4]) (Some 500), Sleep 1])"
    unfolding plan by (simp add: second_request_fails_def)
  from push_to_instantly_raises_only_for_credentials
      [of instantly_env_example second_request_fails ?split 0] good some
  have three: "push_to_instantly instantly_env_example second_request_fails ?split 0
      = (Inl Range_step_zero, [])"
    by simp
  from one two three show ?thesis by (intro conjI)
qed

text \<open>A list of 250 elements is cut into batches of 100, 100 and 50.\<close>

lemma batches_of_250:
  assumes "length cs = 250"
  shows "batches_of 100 cs = [take 100 cs, take 100 (drop 100 cs), drop 200 cs]"
proof -
  have 1: "batches_of 100 cs = take 100 cs # batches_of 100 (drop 100 cs)"
    using assms by (subst batches_of.simps) auto
  have 2: "batches_of 100 (drop 100 cs) = take 100 (drop 100 cs) # batches_of 100 (drop 200 cs)"
    using assms by (subst batches_of.simps) auto
  have 3: "batches_of 100 (drop 200 cs) = [drop 200 cs]"
    using assms by (intro batches_of_single) auto
  from 1 2 3 show ?thesis by simp
qed

text \<open>
  C5.  For a campaign group of 250 contacts and batch size 100, with credentials set, when
  the first and the third request are answered with 200 or 201 and the second is not
  (another status, or the request raises), \<^verbatim>\<open>push_to_instantly\<close> makes exactly three
  uploads, of 100, 100 and 50 leads, does not raise, and returns 150.
\<close>

theorem upload_250_second_batch_fails:
  assumes creds: "instantly_credentials_ok env" and len: "length cs = 250"
    and key: "k = ''campaign_a'' \<or> k = ''campaign_b''"
    and first: "\<forall>request. accepted (srv 0 request)"
    and second: "\<forall>request. \<not> accepted (srv 1 request)"
    and third: "\<forall>request. accepted (srv 2 request)"
  shows "\<exists>tr. push_to_instantly env srv [(k, cs)] 100 = (Inr 150, tr)
              \<and> upload_sizes tr = [100, 100, 50]"
proof -
  from creds key obtain cid where cid: "campaign_ids_get env k = Some cid" "cid \<noteq> []"
    by (cases "campaign_primary_id env"; cases "campaign_secondary_id env")
       (auto simp: instantly_credentials_ok_def campaign_ids_get_def campaign_ids_def)
  from len have ne: "cs \<noteq> []" by auto
  let ?bs = "[take 100 cs, take 100 (drop 100 cs), drop 200 cs]"
  have rb: "range_batches 100 cs = Inr ?bs"
    by (simp add: range_batches_def batches_of_250 [OF len])
  from upload_batches_run [of srv cid ?bs 0 0 "[]"] obtain ev where
    run: "upload_batches srv cid ?bs 0 0 []
        = (0 + length ?bs,
           0 + (\<Sum>i<length ?bs. if accepted (srv (0 + i) (upload_request cid (?bs ! i)))
                                 then length (?bs ! i) else 0),
           [] @ ev)"
    and sizes: "upload_sizes ev = map length ?bs"
    by blast
  have sum: "(\<Sum>i<length ?bs. if accepted (srv (0 + i) (upload_request cid (?bs ! i)))
                                 then length (?bs ! i) else 0) = 150"
    using first second third len by (simp add: numeral_2_eq_2)
  have "push_to_instantly env srv [(k, cs)] 100 = (Inr 150, ev)"
    unfolding push_to_instantly_def credentials_check
    using creds cid ne rb run sum by simp
  moreover have "upload_sizes ev = [100, 100, 50]"
    using sizes len by simp
  ultimately show ?thesis by blast
qed

theorem upload_250_second_batch_fails_witness:
  "\<exists>tr. push_to_instantly instantly_env_example second_request_fails
           [(''campaign_a'', map numbered_contact [0..<250])] 100 = (Inr 150, tr)
        \<and> upload_sizes tr = [100, 100, 50]"
proof -
  have creds: "instantly_credentials_ok instantly_env_example"
    by (simp add: instantly_credentials_ok_def instantly_env_example_def)
  have len: "length (map numbered_contact [0..<250]) = 250" by simp
  have key: "''campaign_a'' = ''campaign_a'' \<or> ''campaign_a'' = ''campaign_b''" by simp
  have first: "\<forall>request. accepted (second_request_fails 0 request)"
    and second: "\<forall>request. \<not> accepted (second_request_fails 1 request)"
    and third: "\<forall>request. accepted (second_request_fails 2 request)"
    by (simp_all add: second_request_fails_def)
  from upload_250_second_batch_fails [OF creds len key first second third] show ?thesis .
qed

section \<open>Properties of delete_finished_leads\<close>

text \<open>
  C8.  For every campaign, filter, cursor and state of the pagination loop: when the
  response to the listing request has an empty or null \<^verbatim>\<open>next_starting_after\<close> or an
  empty page, the loop ends with this request, and the emails of this last page, empty or
  not, are among the accumulated emails.  When this happens at the first request of the
  only configured campaign with a non-empty page of at most 100 leads, the emails of the
  page are what the removal request sends, and a 200 response counts them as deleted.
\<close>

theorem cleanup_pagination_stops_without_cursor:
  assumes "srv t (List_leads campaign_id filter_val (if truthy starting_after then starting_after else None))
             = Response status (Some data)"
    and "\<not> raises_for_status status"
    and "\<not> truthy (lp_next_starting_after data) \<or> lp_data data = []"
  shows "list_loop (Suc fuel) srv campaign_id filter_val t starting_after emails_to_delete tr
           = (Some (Inr (emails_to_delete @ lp_data data, Suc t)),
              tr @ [Instantly (List_leads campaign_id filter_val
                                 (if truthy starting_after then starting_after else None))
                              (Some status)])
         \<and> (starting_after = None \<and> t = 0 \<and> filter_val = ''FILTER_VAL_COMPLETED''
              \<and> truthy (instantly_api_key env) \<and> campaign_primary_id env = Some campaign_id
              \<and> campaign_id \<noteq> [] \<and> campaign_secondary_id env = None
              \<and> lp_data data \<noteq> [] \<and> length (lp_data data) \<le> 100
              \<and> srv 1 (Remove_leads campaign_id (lp_data data)) = Response 200 body \<longrightarrow>
            delete_finished_leads env srv (Suc fuel)
              = (Some (Inr (length (lp_data data))),
                 [Instantly (List_leads campaign_id ''FILTER_VAL_COMPLETED'' None) (Some status),
                  Instantly (Remove_leads campaign_id (lp_data data)) (Some 200), Sleep 1]))"
proof (intro conjI impI)
  show loop: "list_loop (Suc fuel) srv campaign_id filter_val t starting_after emails_to_delete tr
           = (Some (Inr (emails_to_delete @ lp_data data, Suc t)),
              tr @ [Instantly (List_leads campaign_id filter_val
                                 (if truthy starting_after then starting_after else None))
                              (Some status)])"
    for emails_to_delete tr
    using assms by (simp add: Let_def)
  assume a: "starting_after = None \<and> t = 0 \<and> filter_val = ''FILTER_VAL_COMPLETED''
              \<and> truthy (instantly_api_key env) \<and> campaign_primary_id env = Some campaign_id
              \<and> campaign_id \<noteq> [] \<and> campaign_secondary_id env = None
              \<and> lp_data data \<noteq> [] \<and> length (lp_data data) \<le> 100
              \<and> srv 1 (Remove_leads campaign_id (lp_data data)) = Response 200 body"
  with loop [of "[]" "[]"] have l0:
    "list_loop (Suc fuel) srv campaign_id ''FILTER_VAL_COMPLETED'' 0 None [] []
       = (Some (Inr (lp_data data, Suc 0)),
          [Instantly (List_leads campaign_id ''FILTER_VAL_COMPLETED'' None) (Some status)])"
    by simp
  from a have b: "batches_of 100 (lp_data data) = [lp_data data]"
    by (intro batches_of_single) simp_all
  from a have r: "srv (Suc 0) (Remove_leads campaign_id (lp_data data)) = Response 200 body"
    by simp
  from a show "delete_finished_leads env srv (Suc fuel)
              = (Some (Inr (length (lp_data data))),
                 [Instantly (List_leads campaign_id ''FILTER_VAL_COMPLETED'' None) (Some status),
                  Instantly (Remove_leads campaign_id (lp_data data)) (Some 200), Sleep 1])"
    by (simp add: delete_finished_leads_def filter_values_def l0 b r del: list_loop.simps)
qed

theorem cleanup_pagination_stops_without_cursor_witness:
  "list_loop (Suc 0) single_page_service ''primary-id'' ''FILTER_VAL_COMPLETED'' 0 None [] []
     = (Some (Inr (five_leads, Suc 0)),
        [Instantly (List_leads ''primary-id'' ''FILTER_VAL_COMPLETED'' None) (Some 200)])
   \<and> delete_finished_leads
        \<lparr>instantly_api_key = Some ''key'', campaign_primary_id = Some ''primary-id'',
         campaign_secondary_id = None\<rparr> single_page_service (Suc 0)
      = (Some (Inr 5),
         [Instantly (List_leads ''primary-id'' ''FILTER_VAL_COMPLETED'' None) (Some 200),
          Instantly (Remove_leads ''primary-id'' five_leads) (Some 200), Sleep 1])"
proof -
  let ?data = "\<lparr>lp_data = five_leads, lp_next_starting_after = None\<rparr>"
  let ?env = "\<lparr>instantly_api_key = Some ''key'', campaign_primary_id = Some ''primary-id'',
         campaign_secondary_id = None\<rparr>"
  have h1: "single_page_service 0 (List_leads ''primary-id'' ''FILTER_VAL_COMPLETED''
      (if truthy None then None else None)) = Response 200 (Some ?data)"
    by (simp add: single_page_service_def)
  have h2: "\<not> raises_for_status 200" by (simp add: raises_for_status_def)
  have h3: "\<not> truthy (lp_next_starting_after ?data) \<or> lp_data ?data = []" by simp
  have h4: "None = None \<and> (0::nat) = 0 \<and> ''FILTER_VAL_COMPLETED'' = ''FILTER_VAL_COMPLETED''
      \<and> truthy (instantly_api_key ?env) \<and> campaign_primary_id ?env = Some ''primary-id''
      \<and> ''primary-id'' \<noteq> [] \<and> campaign_secondary_id ?env = None
      \<and> lp_data ?data \<noteq> [] \<and> length (lp_data ?data) \<le> 100
      \<and> single_page_service 1 (Remove_leads ''primary-id'' (lp_data ?data)) = Response 200 (Some ?data)"
    by (simp add: single_page_service_def five_leads_def)
  have five: "length five_leads = 5" by (simp add: five_leads_def)
  from cleanup_pagination_stops_without_cursor
      [where srv = single_page_service and t = 0 and campaign_id = "''primary-id''"
         and filter_val = "''FILTER_VAL_COMPLETED''" and starting_after = None and status = 200
         and data = ?data and fuel = 0 and emails_to_delete = "[]" and tr = "[]" and env = ?env
         and body = "Some ?data", OF h1 h2 h3] h4 five
  show ?thesis by simp
qed

section \<open>Properties of the deduplication\<close>

text \<open>Every contact that \<^verbatim>\<open>fetch_all_contacts_from_list\<close> returns has a non-empty email.\<close>

lemma handle_response_emails:
  assumes "\<forall>c\<in>set acc. email c \<noteq> []"
  shows "(handle_response r page acc = Leave (Inr cs) ev \<longrightarrow> (\<forall>c\<in>set cs. email c \<noteq> []))
       \<and> (handle_response r page acc = Go_on p acc' ev \<longrightarrow> (\<forall>c\<in>set acc'. email c \<noteq> []))"
  using assms
  by (cases r) (auto split: if_splits option.splits dest: page_contacts_emails)

lemma fetch_loop_emails:
  "\<forall>c\<in>set acc. email c \<noteq> [] \<Longrightarrow> fetch_loop fuel cap srv t page acc tr = (Some (Inr cs), tr') \<Longrightarrow>
     \<forall>c\<in>set cs. email c \<noteq> []"
proof (induction fuel arbitrary: t page acc tr)
  case 0
  then show ?case by simp
next
  case (Suc fuel)
  show ?case
  proof (cases "cap_check cap page")
    case (Inl e)
    with Suc.prems show ?thesis by simp
  next
    case (Inr stop)
    show ?thesis
    proof (cases stop)
      case True
      with Inr Suc.prems show ?thesis by simp
    next
      case False
      show ?thesis
      proof (cases "handle_response (srv t page) page acc")
        case (Leave r ev)
        with Inr False Suc.prems have "r = Inr cs" by simp
        with Leave handle_response_emails [OF Suc.prems(1), where r = "srv t page" and page = page
            and cs = cs and ev = ev]
        show ?thesis by simp
      next
        case (Go_on p acc' ev)
        with handle_response_emails [OF Suc.prems(1), where r = "srv t page" and page = page
            and p = p and acc' = acc' and ev = ev]
        have "\<forall>c\<in>set acc'. email c \<noteq> []" by simp
        moreover from Inr False Go_on Suc.prems(2) have
          "fetch_loop fuel cap srv (Suc t) p acc' (tr @ Apollo_search 100 page # ev) = (Some (Inr cs), tr')"
          by simp
        ultimately show ?thesis by (rule Suc.IH)
      qed
    qed
  qed
qed

lemma fetched_emails_nonempty:
  "fetch_all_contacts_from_list env srv fuel = (Some (Inr fetched), tr) \<Longrightarrow>
     \<forall>c\<in>set fetched. email c \<noteq> []"
  by (auto simp: fetch_all_contacts_from_list_def split: if_splits dest!: fetch_loop_emails [rotated])

text \<open>The filter itself, for any set of processed emails.\<close>

lemma new_contacts_iff:
  "c \<in> set (new_contacts processed_emails all_apollo_contacts)
     \<longleftrightarrow> c \<in> set all_apollo_contacts \<and> email c \<noteq> [] \<and> lower (email c) \<notin> processed_emails"
  by (auto simp: new_contacts_def)

lemma GoogleSheetManager_Inr:
  "GoogleSheetManager opened = Inr self \<Longrightarrow> processed_sheet self = None"
  by (auto simp: GoogleSheetManager_def split: option.splits)

text \<open>
  C10.  The claim is that a fetched contact is new if and only if its lowercased email is
  absent from the stored set of processed emails.  The filter would do that
  (\<open>new_contacts_iff\<close>), but the stored emails never reach it: the manager that
  \<^verbatim>\<open>__init__\<close> builds has no \<^verbatim>\<open>processed_sheet\<close>, so \<^verbatim>\<open>get_processed_emails\<close>
  returns the empty set whatever the sheet holds, and every fetched contact with a
  non-empty email is classified as new, also when its lowercased email is stored in the
  "Processed Leads" sheet.
\<close>

theorem deduplicate_never_reads_processed_leads:
  assumes "GoogleSheetManager opened = Inr self"
  shows "get_processed_emails self = {}
       \<and> deduplicate opened all_apollo_contacts
           = Inr (filter (\<lambda>c. email c \<noteq> []) all_apollo_contacts)
       \<and> (opened = Some sheets \<and> sheets ''Processed Leads'' = Some (Some (header # stored))
            \<and> c \<in> set all_apollo_contacts \<and> email c \<noteq> [] \<and> lower (email c) \<in> set stored \<longrightarrow>
          (\<exists>new. deduplicate opened all_apollo_contacts = Inr new \<and> c \<in> set new))"
proof -
  from GoogleSheetManager_Inr [OF assms] have e: "get_processed_emails self = {}"
    by (simp add: get_processed_emails_def)
  with assms have d: "deduplicate opened all_apollo_contacts
           = Inr (filter (\<lambda>c. email c \<noteq> []) all_apollo_contacts)"
    by (simp add: deduplicate_def new_contacts_def)
  have "\<exists>new. deduplicate opened all_apollo_contacts = Inr new \<and> c \<in> set new"
    if "c \<in> set all_apollo_contacts" "email c \<noteq> []"
    using that d by simp
  with e d show ?thesis by blast
qed

theorem deduplicate_never_reads_processed_leads_witness:
  "deduplicate (Some spreadsheet_example) [contact_with_email ''a@x.com'', contact_with_email ''b@x.com'']
     = Inr [contact_with_email ''a@x.com'', contact_with_email ''b@x.com'']
   \<and> spreadsheet_example ''Processed Leads'' = Some (Some [''Email'', ''a@x.com''])
   \<and> lower (email (contact_with_email ''a@x.com'')) = ''a@x.com''"
proof -
  have init: "GoogleSheetManager (Some spreadsheet_example)
      = Inr \<lparr>log_sheet = Some [], processed_sheet = None, invalid_sheet = None\<rparr>"
    by (simp add: GoogleSheetManager_def spreadsheet_example_def)
  have stored: "spreadsheet_example ''Processed Leads'' = Some (Some [''Email'', ''a@x.com''])"
    by (simp add: spreadsheet_example_def)
  have low: "lower (email (contact_with_email ''a@x.com'')) = ''a@x.com''"
    by code_simp
  from deduplicate_never_reads_processed_leads [OF init,
      of "[contact_with_email ''a@x.com'', contact_with_email ''b@x.com'']"]
  have "deduplicate (Some spreadsheet_example)
        [contact_with_email ''a@x.com'', contact_with_email ''b@x.com'']
     = Inr [contact_with_email ''a@x.com'', contact_with_email ''b@x.com'']"
    by (simp add: contact_with_email_def)
  with stored low show ?thesis by (intro conjI)
qed

end
